theory Spec2Isabelle
  imports Main "HOL-Library.Word"
begin

section \<open>FileBufferedChannel (ext/common/ServerKit/FileBufferedChannel.h)\<close>

text \<open>
  A shallow embedding of the class \<^verbatim>\<open>FileBufferedChannel\<close>. Every member function that
  changes the object becomes a function from the object's state to its new state.

  Conventions of the embedding:
  \<^item> A result of type \<open>option\<close> is \<open>None\<close> when the C++ function does not return normally:
    it dereferences a null \<^verbatim>\<open>inFileMode\<close>, \<^verbatim>\<open>readRequest\<close> or \<^verbatim>\<open>writerRequest\<close>, reads
    \<^verbatim>\<open>moreBuffers.back()\<close> of an empty deque, reaches \<^verbatim>\<open>P_BUG\<close>, or its reader loop never exits.
  \<^item> The debugging checks \<^verbatim>\<open>assert\<close>, \<^verbatim>\<open>P_ASSERT_EQ\<close> and \<^verbatim>\<open>verifyInvariants()\<close> do not
    change the state and are not modelled as aborts: the model continues where a checking
    build would stop, so every state a checking build returns is a state of the model.
    What \<^verbatim>\<open>verifyInvariants()\<close> checks is the predicate \<open>verifyInvariants\<close> below.
  \<^item> The base class \<^verbatim>\<open>Channel\<close> (ServerKit/Channel.h), the user callbacks, the libeio
    engine and the mbuf pool are not part of the sources. The base object and the user side
    form the component \<open>chan\<close> of an arbitrary type \<open>'w\<close>; the operations on it are the
    fields of a record \<open>ChannelOps\<close> that every function takes as a parameter. Callbacks act
    on \<open>chan\<close> only: they do not call back into the FileBufferedChannel.
  \<^item> An asynchronous libeio request is the context recorded in \<^verbatim>\<open>inFileMode\<close>; its completion
    is an event carrying libeio's \<^verbatim>\<open>result\<close> and \<^verbatim>\<open>errorno\<close>. \<^verbatim>\<open>IOContext::cancel()\<close> sets the
    flag \<^verbatim>\<open>canceled\<close> of a context that the object, from then on, does not point to: the
    contexts it was called on are listed in \<open>canceledContexts\<close>. The completion of a canceled
    context finds \<^verbatim>\<open>isCanceled()\<close>, deletes the context and does nothing to the object.
\<close>

subsection \<open>Types and constants\<close>

type_synonym mbuf = string

datatype Mode = IN_MEMORY_MODE | IN_FILE_MODE | ERROR | ERROR_WAITING

datatype ReaderState =
  RS_INACTIVE | RS_FEEDING | RS_FEEDING_EOF | RS_WAITING_FOR_CHANNEL_IDLE
  | RS_READING_FROM_FILE | RS_TERMINATED

datatype WriterState = WS_INACTIVE | WS_CREATING_FILE | WS_MOVING | WS_TERMINATED

text \<open>\<^verbatim>\<open>mode >= ERROR\<close> in the order of the enum's declaration.\<close>

fun modeGeError :: "Mode \<Rightarrow> bool" where
  "modeGeError IN_MEMORY_MODE = False"
| "modeGeError IN_FILE_MODE = False"
| "modeGeError ERROR = True"
| "modeGeError ERROR_WAITING = True"

text \<open>
  \<^verbatim>\<open>ReadContext\<close>: the \<^verbatim>\<open>eio_read(fd, buffer.start, size, readOffset)\<close> request it carries.
\<close>

record ReadContext =
  rc_size :: nat
  rc_offset :: int

text \<open>
  \<^verbatim>\<open>MoveContext\<close>: the buffer being moved, the bytes of it written so far, and the pending
  \<^verbatim>\<open>eio_write(fd, data, size, offset)\<close> request (its data and its file offset).
\<close>

record MoveContext =
  mc_buffer :: mbuf
  mc_written :: nat
  mc_reqData :: mbuf
  mc_reqOffset :: int

text \<open>
  \<^verbatim>\<open>IOContext *writerRequest\<close> points to a \<^verbatim>\<open>FileCreationContext\<close> (the flag tells whether
  its request is still the \<^verbatim>\<open>eio_busy\<close> delay rather than the \<^verbatim>\<open>eio_open\<close>) or to a
  \<^verbatim>\<open>MoveContext\<close>.
\<close>

datatype IOContext = FileCreationContext bool | MoveCtx MoveContext

text \<open>A context of either kind: what \<^verbatim>\<open>readRequest\<close> or \<^verbatim>\<open>writerRequest\<close> points to.\<close>

datatype RequestContext = ReadRequest ReadContext | WriterRequest IOContext

text \<open>
  \<^verbatim>\<open>struct InFileMode\<close>. The field \<open>fileData\<close> is not a member of the struct: it is the
  content of the file behind \<^verbatim>\<open>fd\<close>, which lives and dies with the struct.
\<close>

record InFileMode =
  fd :: int
  readRequest :: "ReadContext option"
  writerState :: WriterState
  writerRequest :: "IOContext option"
  readOffset :: int
  written :: int
  fileData :: string

definition newInFileMode :: InFileMode where
  "newInFileMode = \<lparr> fd = -1, readRequest = None, writerState = WS_INACTIVE,
     writerRequest = None, readOffset = 0, written = 0, fileData = [] \<rparr>"

text \<open>
  \<^verbatim>\<open>FileBufferedChannelConfig\<close>, and with it the one value read from the context:
  \<^verbatim>\<open>mbuf_pool_data_size(&ctx->mbuf_pool)\<close>.
\<close>

record FileBufferedChannelConfig =
  threshold :: "32 word"
  delayInFileModeSwitching :: nat
  autoTruncateFile :: bool
  autoStartMover :: bool
  mbufPoolDataSize :: nat

text \<open>
  The members of the class. \<^verbatim>\<open>nbuffers\<close> is a 27-bit field and \<^verbatim>\<open>bytesBuffered\<close> a
  \<^verbatim>\<open>uint32_t\<close>; \<open>chan\<close> is the base object together with the user side. The field
  \<open>canceledContexts\<close> is not a member of the class: it lists, in the order of the calls, the
  contexts on which \<^verbatim>\<open>cancel()\<close> has been called.
\<close>

record 'w FBC =
  mode :: Mode
  readerState :: ReaderState
  nbuffers :: "27 word"
  errcode :: int
  bytesBuffered :: "32 word"
  firstBuffer :: mbuf
  moreBuffers :: "mbuf list"
  inFileMode :: "InFileMode option"
  chan :: 'w
  canceledContexts :: "RequestContext list"

text \<open>
  The operations of the base class \<^verbatim>\<open>Channel\<close> that the class calls, the member
  \<^verbatim>\<open>Channel::generation\<close>, and the two user callbacks.
\<close>

record 'w ChannelOps =
  ch_feed :: "mbuf \<Rightarrow> 'w \<Rightarrow> 'w"
  ch_feedError :: "int \<Rightarrow> 'w \<Rightarrow> 'w"
  ch_acceptingInput :: "'w \<Rightarrow> bool"
  ch_mayAcceptInputLater :: "'w \<Rightarrow> bool"
  ch_isIdle :: "'w \<Rightarrow> bool"
  ch_ended :: "'w \<Rightarrow> bool"
  ch_consumed :: "nat \<Rightarrow> bool \<Rightarrow> 'w \<Rightarrow> 'w"
  ch_reinitialize :: "'w \<Rightarrow> 'w"
  ch_deinitialize :: "'w \<Rightarrow> 'w"
  ch_generation :: "'w \<Rightarrow> nat"
  cb_buffersFlushed :: "'w \<Rightarrow> 'w"
  cb_dataFlushed :: "'w \<Rightarrow> 'w"

text \<open>\<^verbatim>\<open>EEXIST\<close> of errno.h (Linux).\<close>

definition EEXIST :: int where
  "EEXIST = 17"

text \<open>The constructor.\<close>

definition FileBufferedChannel :: "'w \<Rightarrow> 'w FBC" where
  "FileBufferedChannel w = \<lparr> mode = IN_MEMORY_MODE, readerState = RS_INACTIVE, nbuffers = 0,
     errcode = 0, bytesBuffered = 0, firstBuffer = [], moreBuffers = [],
     inFileMode = None, chan = w, canceledContexts = [] \<rparr>"

subsection \<open>Buffer manipulation\<close>

definition callBuffersFlushedCallback :: "'w ChannelOps \<Rightarrow> 'w FBC \<Rightarrow> 'w FBC" where
  "callBuffersFlushedCallback ops s = s\<lparr>chan := cb_buffersFlushed ops (chan s)\<rparr>"

definition callDataFlushedCallback :: "'w ChannelOps \<Rightarrow> 'w FBC \<Rightarrow> 'w FBC" where
  "callDataFlushedCallback ops s = s\<lparr>chan := cb_dataFlushed ops (chan s)\<rparr>"

definition clearBuffers :: "'w FBC \<Rightarrow> 'w FBC" where
  "clearBuffers s = s\<lparr>nbuffers := 0, bytesBuffered := 0, firstBuffer := [], moreBuffers := []\<rparr>"

definition pushBuffer :: "mbuf \<Rightarrow> 'w FBC \<Rightarrow> 'w FBC" where
  "pushBuffer buffer s =
     (let s1 = (if nbuffers s = 0 then s\<lparr>firstBuffer := buffer\<rparr>
                else s\<lparr>moreBuffers := moreBuffers s @ [buffer]\<rparr>)
      in s1\<lparr>nbuffers := nbuffers s1 + 1,
             bytesBuffered := bytesBuffered s1 + of_nat (length buffer)\<rparr>)"

definition popBuffer :: "'w ChannelOps \<Rightarrow> 'w FBC \<Rightarrow> 'w FBC" where
  "popBuffer ops s =
     (let s1 = s\<lparr>bytesBuffered := bytesBuffered s - of_nat (length (firstBuffer s)),
                 nbuffers := nbuffers s - 1\<rparr>
      in case moreBuffers s1 of
           [] \<Rightarrow> callBuffersFlushedCallback ops (s1\<lparr>firstBuffer := []\<rparr>)
         | b # bs \<Rightarrow> s1\<lparr>firstBuffer := b, moreBuffers := bs\<rparr>)"

definition hasBuffers :: "'w FBC \<Rightarrow> bool" where
  "hasBuffers s = (0 < nbuffers s)"

definition peekBuffer :: "'w FBC \<Rightarrow> mbuf" where
  "peekBuffer s = firstBuffer s"

definition peekLastBuffer :: "'w FBC \<Rightarrow> mbuf option" where
  "peekLastBuffer s =
     (if nbuffers s \<le> 1 then Some (firstBuffer s)
      else if moreBuffers s = [] then None
      else Some (last (moreBuffers s)))"

subsection \<open>Observers\<close>

definition getMode :: "'w FBC \<Rightarrow> Mode" where
  "getMode s = mode s"

definition getReaderState :: "'w FBC \<Rightarrow> ReaderState" where
  "getReaderState s = readerState s"

text \<open>\<^verbatim>\<open>return inFileMode->writerState;\<close> with no check of the pointer.\<close>

definition getWriterState :: "'w FBC \<Rightarrow> WriterState option" where
  "getWriterState s = (case inFileMode s of None \<Rightarrow> None | Some ifm \<Rightarrow> Some (writerState ifm))"

definition getBytesBuffered :: "'w FBC \<Rightarrow> 32 word" where
  "getBytesBuffered s = bytesBuffered s"

text \<open>
  \<^verbatim>\<open>(hasBuffers() && peekLastBuffer().empty()) || mode >= ERROR || Channel::ended()\<close>,
  evaluated left to right.
\<close>

definition ended :: "'w ChannelOps \<Rightarrow> 'w FBC \<Rightarrow> bool option" where
  "ended ops s =
     (if hasBuffers s then
        (case peekLastBuffer s of
           None \<Rightarrow> None
         | Some b \<Rightarrow> Some (b = [] \<or> modeGeError (mode s) \<or> ch_ended ops (chan s)))
      else Some (modeGeError (mode s) \<or> ch_ended ops (chan s)))"

definition passedThreshold :: "FileBufferedChannelConfig \<Rightarrow> 'w FBC \<Rightarrow> bool" where
  "passedThreshold cfg s = (threshold cfg \<le> bytesBuffered s)"

text \<open>What \<^verbatim>\<open>verifyInvariants()\<close> asserts.\<close>

definition verifyInvariants :: "'w FBC \<Rightarrow> bool" where
  "verifyInvariants s =
     ((modeGeError (mode s) \<longrightarrow> readerState s = RS_TERMINATED \<and> inFileMode s = None)
      \<and> (case readerState s of
            RS_WAITING_FOR_CHANNEL_IDLE \<Rightarrow> \<not> modeGeError (mode s)
          | RS_READING_FROM_FILE \<Rightarrow>
              mode s = IN_FILE_MODE
              \<and> (case inFileMode s of
                    None \<Rightarrow> False
                  | Some ifm \<Rightarrow> readRequest ifm \<noteq> None \<and> 0 < written ifm)
          | _ \<Rightarrow> True)
      \<and> ((errcode s = 0) = (\<not> modeGeError (mode s)))
      \<and> ((inFileMode s \<noteq> None) = (mode s = IN_FILE_MODE)))"

subsection \<open>Misc: cancelling, error handling\<close>

text \<open>\<^verbatim>\<open>IOContext::cancel()\<close>, called on the context \<open>ctx\<close>.\<close>

definition IOContext_cancel :: "RequestContext \<Rightarrow> 'w FBC \<Rightarrow> 'w FBC" where
  "IOContext_cancel ctx s = s\<lparr>canceledContexts := canceledContexts s @ [ctx]\<rparr>"

definition cancelReader :: "'w FBC \<Rightarrow> 'w FBC option" where
  "cancelReader s =
     (case readerState s of
        RS_FEEDING \<Rightarrow> Some s
      | RS_FEEDING_EOF \<Rightarrow> Some s
      | RS_WAITING_FOR_CHANNEL_IDLE \<Rightarrow> Some s
      | RS_READING_FROM_FILE \<Rightarrow>
          (case inFileMode s of
             None \<Rightarrow> None
           | Some ifm \<Rightarrow>
               (case readRequest ifm of
                  None \<Rightarrow> None
                | Some rc \<Rightarrow>
                    Some ((IOContext_cancel (ReadRequest rc) s)
                      \<lparr>inFileMode := Some (ifm\<lparr>readRequest := None\<rparr>)\<rparr>)))
      | RS_INACTIVE \<Rightarrow> Some s
      | RS_TERMINATED \<Rightarrow> Some s)"

definition cancelWriter :: "'w FBC \<Rightarrow> 'w FBC option" where
  "cancelWriter s =
     (case inFileMode s of
        None \<Rightarrow> None
      | Some ifm \<Rightarrow>
          (case writerState ifm of
             WS_INACTIVE \<Rightarrow> Some (s\<lparr>inFileMode := Some (ifm\<lparr>writerState := WS_INACTIVE\<rparr>)\<rparr>)
           | WS_CREATING_FILE \<Rightarrow>
               (case writerRequest ifm of
                  None \<Rightarrow> None
                | Some ctx \<Rightarrow>
                    Some ((IOContext_cancel (WriterRequest ctx) s)\<lparr>inFileMode :=
                      Some (ifm\<lparr>writerRequest := None, writerState := WS_INACTIVE\<rparr>)\<rparr>))
           | WS_MOVING \<Rightarrow>
               (case writerRequest ifm of
                  None \<Rightarrow> None
                | Some ctx \<Rightarrow>
                    Some ((IOContext_cancel (WriterRequest ctx) s)\<lparr>inFileMode :=
                      Some (ifm\<lparr>writerRequest := None, writerState := WS_INACTIVE\<rparr>)\<rparr>))
           | WS_TERMINATED \<Rightarrow> Some s))"

definition setError :: "'w ChannelOps \<Rightarrow> int \<Rightarrow> 'w FBC \<Rightarrow> 'w FBC option" where
  "setError ops e s =
     (if modeGeError (mode s) then Some s
      else
        (case cancelReader s of
           None \<Rightarrow> None
         | Some s1 \<Rightarrow>
             (case (if mode s1 = IN_FILE_MODE then cancelWriter s1 else Some s1) of
                None \<Rightarrow> None
              | Some s2 \<Rightarrow>
                  (let s3 = s2\<lparr>readerState := RS_TERMINATED, errcode := e, inFileMode := None\<rparr>
                   in if ch_acceptingInput ops (chan s3)
                      then Some (s3\<lparr>mode := ERROR, chan := ch_feedError ops e (chan s3)\<rparr>)
                      else Some (s3\<lparr>mode := ERROR_WAITING\<rparr>)))))"

definition feedErrorWhenChannelIdleOrEnded :: "'w ChannelOps \<Rightarrow> 'w FBC \<Rightarrow> 'w FBC" where
  "feedErrorWhenChannelIdleOrEnded ops s =
     (if ch_isIdle ops (chan s) then s\<lparr>chan := ch_feedError ops (errcode s) (chan s)\<rparr> else s)"

subsection \<open>Switching to or resetting in-file mode, file creator\<close>

definition createBufferFile :: "FileBufferedChannelConfig \<Rightarrow> 'w FBC \<Rightarrow> 'w FBC option" where
  "createBufferFile cfg s =
     (case inFileMode s of
        None \<Rightarrow> None
      | Some ifm \<Rightarrow>
          Some (s\<lparr>inFileMode := Some (ifm\<lparr>writerState := WS_CREATING_FILE,
            writerRequest := Some (FileCreationContext (delayInFileModeSwitching cfg \<noteq> 0))\<rparr>)\<rparr>))"

definition switchToInFileMode :: "FileBufferedChannelConfig \<Rightarrow> 'w FBC \<Rightarrow> 'w FBC option" where
  "switchToInFileMode cfg s =
     createBufferFile cfg (s\<lparr>mode := IN_FILE_MODE, inFileMode := Some newInFileMode\<rparr>)"

definition switchToInMemoryMode :: "'w FBC \<Rightarrow> 'w FBC option" where
  "switchToInMemoryMode s =
     (case cancelWriter s of
        None \<Rightarrow> None
      | Some s1 \<Rightarrow> Some ((clearBuffers s1)\<lparr>mode := IN_MEMORY_MODE, inFileMode := None\<rparr>))"

definition bufferFileDoneDelaying :: "'w FBC \<Rightarrow> 'w FBC option" where
  "bufferFileDoneDelaying s =
     (case inFileMode s of
        None \<Rightarrow> None
      | Some ifm \<Rightarrow> Some (s\<lparr>inFileMode := Some (ifm\<lparr>writerRequest := Some (FileCreationContext False)\<rparr>)\<rparr>))"

subsection \<open>Mover\<close>

definition moveNextBufferToFile :: "'w FBC \<Rightarrow> 'w FBC option" where
  "moveNextBufferToFile s =
     (case inFileMode s of
        None \<Rightarrow> None
      | Some ifm \<Rightarrow>
          if nbuffers s = 0 then Some (s\<lparr>inFileMode := Some (ifm\<lparr>writerState := WS_INACTIVE\<rparr>)\<rparr>)
          else if peekBuffer s = [] then
            Some (s\<lparr>inFileMode := Some (ifm\<lparr>writerState := WS_TERMINATED\<rparr>)\<rparr>)
          else
            Some (s\<lparr>inFileMode := Some (ifm\<lparr>writerState := WS_MOVING,
              writerRequest := Some (MoveCtx \<lparr> mc_buffer = peekBuffer s, mc_written = 0,
                mc_reqData = peekBuffer s,
                mc_reqOffset = readOffset ifm + written ifm \<rparr>)\<rparr>)\<rparr>))"

definition bufferFileCreated ::
  "'w ChannelOps \<Rightarrow> FileBufferedChannelConfig \<Rightarrow> int \<Rightarrow> int \<Rightarrow> 'w FBC \<Rightarrow> 'w FBC option" where
  "bufferFileCreated ops cfg result errorno s =
     (case inFileMode s of
        None \<Rightarrow> None
      | Some ifm0 \<Rightarrow>
          (let ifm = ifm0\<lparr>writerRequest := None\<rparr>
           in if result \<noteq> -1 then
                moveNextBufferToFile (s\<lparr>inFileMode := Some (ifm\<lparr>fd := result, fileData := []\<rparr>)\<rparr>)
              else if errorno = EEXIST then
                createBufferFile cfg (s\<lparr>inFileMode := Some (ifm\<lparr>writerState := WS_INACTIVE\<rparr>)\<rparr>)
              else setError ops errorno (s\<lparr>inFileMode := Some ifm\<rparr>)))"

text \<open>
  \<^verbatim>\<open>bufferWrittenToFile(moveContext)\<close>, with the context and the \<^verbatim>\<open>result\<close> and \<^verbatim>\<open>errcode\<close>
  that \<^verbatim>\<open>eioFinished()\<close> copied into it.
\<close>

definition bufferWrittenToFile ::
  "'w ChannelOps \<Rightarrow> MoveContext \<Rightarrow> int \<Rightarrow> int \<Rightarrow> 'w FBC \<Rightarrow> 'w FBC option" where
  "bufferWrittenToFile ops mc0 result errorno s =
     (case inFileMode s of
        None \<Rightarrow> None
      | Some ifm \<Rightarrow>
          if result \<noteq> -1 then
            (let mc = mc0\<lparr>mc_written := mc_written mc0 + nat result\<rparr>
             in if mc_written mc = length (mc_buffer mc) then
                  (let s1 = popBuffer ops
                         (s\<lparr>inFileMode :=
                            Some (ifm\<lparr>written := written ifm + int (length (mc_buffer mc))\<rparr>)\<rparr>)
                   in if ch_generation ops (chan s1) \<noteq> ch_generation ops (chan s)
                         \<or> modeGeError (mode s1)
                      then Some s1
                      else
                        (case inFileMode s1 of
                           None \<Rightarrow> None
                         | Some ifm1 \<Rightarrow>
                             moveNextBufferToFile
                               (s1\<lparr>inFileMode := Some (ifm1\<lparr>writerRequest := None\<rparr>)\<rparr>)))
                else
                  Some (s\<lparr>inFileMode := Some (ifm\<lparr>writerRequest :=
                    Some (MoveCtx (mc\<lparr>mc_reqData := drop (mc_written mc) (mc_buffer mc),
                      mc_reqOffset := readOffset ifm + written ifm\<rparr>))\<rparr>)\<rparr>))
          else
            setError ops errorno
              (s\<lparr>inFileMode := Some (ifm\<lparr>writerRequest := None, writerState := WS_TERMINATED\<rparr>)\<rparr>))"

subsection \<open>Reader\<close>

definition terminateReaderBecauseOfEOF :: "'w ChannelOps \<Rightarrow> 'w FBC \<Rightarrow> 'w FBC" where
  "terminateReaderBecauseOfEOF ops s =
     callDataFlushedCallback ops (s\<lparr>readerState := RS_TERMINATED\<rparr>)"

definition readNextWhenChannelIdle :: "'w FBC \<Rightarrow> 'w FBC" where
  "readNextWhenChannelIdle s = s\<lparr>readerState := RS_WAITING_FOR_CHANNEL_IDLE\<rparr>"

definition channelEndedWhileWaitingForItToBecomeIdle :: "'w ChannelOps \<Rightarrow> 'w FBC \<Rightarrow> 'w FBC" where
  "channelEndedWhileWaitingForItToBecomeIdle ops s = terminateReaderBecauseOfEOF ops s"

definition readNextChunkFromFile :: "FileBufferedChannelConfig \<Rightarrow> 'w FBC \<Rightarrow> 'w FBC option" where
  "readNextChunkFromFile cfg s =
     (case inFileMode s of
        None \<Rightarrow> None
      | Some ifm \<Rightarrow>
          (let n = min (nat (written ifm)) (mbufPoolDataSize cfg)
           in Some (s\<lparr>readerState := RS_READING_FROM_FILE,
                inFileMode := Some (ifm\<lparr>readRequest :=
                  Some \<lparr> rc_size = n, rc_offset = readOffset ifm \<rparr>\<rparr>)\<rparr>)))"

text \<open>
  The loop of \<^verbatim>\<open>findBufferForReadProcessing\<close> over \<^verbatim>\<open>moreBuffers\<close>; \<^verbatim>\<open>target\<close> and \<^verbatim>\<open>offset\<close>
  are \<^verbatim>\<open>boost::int32_t\<close>.
\<close>

fun walkMoreBuffers :: "32 word \<Rightarrow> 32 word \<Rightarrow> mbuf list \<Rightarrow> mbuf \<times> bool" where
  "walkMoreBuffers target offset [] = ([], False)"
| "walkMoreBuffers target offset (b # bs) =
     (if offset = target \<or> b = [] then (b, True)
      else walkMoreBuffers target (offset + of_nat (length b)) bs)"

text \<open>
  \<^verbatim>\<open>findBufferForReadProcessing()\<close> returns (mbuf, found); the argument \<open>ifm\<close> is
  \<^verbatim>\<open>*inFileMode\<close>. \<^verbatim>\<open>target = -inFileMode->written\<close> keeps the low 32 bits of the 64-bit value.
\<close>

definition findBufferForReadProcessing :: "'w FBC \<Rightarrow> InFileMode \<Rightarrow> mbuf \<times> bool" where
  "findBufferForReadProcessing s ifm =
     (if nbuffers s = 0 then ([], False)
      else
        (let target = (word_of_int (- written ifm) :: 32 word);
             offset = (0 :: 32 word)
         in if offset = target then (firstBuffer s, True)
            else walkMoreBuffers target (offset + of_nat (length (firstBuffer s))) (moreBuffers s)))"

text \<open>
  What follows a \<^verbatim>\<open>Channel::feedWithoutRefGuard(buffer)\<close> of a non-empty buffer in the reader:
  the generation and mode check, then \<^verbatim>\<open>goto begin\<close> (the flag \<open>True\<close>), waiting, or
  terminating. \<open>gen\<close> is the generation sampled at \<^verbatim>\<open>begin\<close>.
\<close>

definition afterFeeding :: "'w ChannelOps \<Rightarrow> nat \<Rightarrow> 'w FBC \<Rightarrow> 'w FBC \<times> bool" where
  "afterFeeding ops gen s =
     (if gen \<noteq> ch_generation ops (chan s) \<or> modeGeError (mode s) then (s, False)
      else if ch_acceptingInput ops (chan s) then (s, True)
      else if ch_mayAcceptInputLater ops (chan s) then (readNextWhenChannelIdle s, False)
      else (terminateReaderBecauseOfEOF ops s, False))"

text \<open>The same after feeding the empty buffer.\<close>

definition afterFeedingEOF :: "'w ChannelOps \<Rightarrow> nat \<Rightarrow> 'w FBC \<Rightarrow> 'w FBC" where
  "afterFeedingEOF ops gen s =
     (if gen \<noteq> ch_generation ops (chan s) \<or> modeGeError (mode s) then s
      else terminateReaderBecauseOfEOF ops s)"

definition Channel_feedWithoutRefGuard :: "'w ChannelOps \<Rightarrow> mbuf \<Rightarrow> 'w FBC \<Rightarrow> 'w FBC" where
  "Channel_feedWithoutRefGuard ops buffer s = s\<lparr>chan := ch_feed ops buffer (chan s)\<rparr>"

text \<open>
  One pass through the body of \<^verbatim>\<open>readNextWithoutRefGuard()\<close>, from the label \<^verbatim>\<open>begin\<close> to
  a \<^verbatim>\<open>goto begin\<close> (flag \<open>True\<close>) or to the end of the function (flag \<open>False\<close>).
\<close>

definition readNextPass ::
  "'w ChannelOps \<Rightarrow> FileBufferedChannelConfig \<Rightarrow> 'w FBC \<Rightarrow> ('w FBC \<times> bool) option" where
  "readNextPass ops cfg s =
     (let generation = ch_generation ops (chan s)
      in case mode s of
        IN_MEMORY_MODE \<Rightarrow>
          if \<not> hasBuffers s then
            Some (callDataFlushedCallback ops (s\<lparr>readerState := RS_INACTIVE\<rparr>), False)
          else if peekBuffer s = [] then
            Some (afterFeedingEOF ops generation
              (Channel_feedWithoutRefGuard ops (peekBuffer s) (s\<lparr>readerState := RS_FEEDING_EOF\<rparr>)),
              False)
          else
            (let buffer = peekBuffer s;
                 s1 = popBuffer ops s
             in if generation \<noteq> ch_generation ops (chan s1) \<or> modeGeError (mode s1)
                then Some (s1, False)
                else Some (afterFeeding ops generation
                  (Channel_feedWithoutRefGuard ops buffer (s1\<lparr>readerState := RS_FEEDING\<rparr>))))
      | IN_FILE_MODE \<Rightarrow>
          (case inFileMode s of
             None \<Rightarrow> None
           | Some ifm \<Rightarrow>
               if 0 < written ifm then
                 (case readNextChunkFromFile cfg s of
                    None \<Rightarrow> None
                  | Some s1 \<Rightarrow> Some (s1, False))
               else
                 (let result = findBufferForReadProcessing s ifm
                  in if \<not> snd result then
                       (let s1 = s\<lparr>readerState := RS_INACTIVE\<rparr>
                        in case (if autoTruncateFile cfg then switchToInMemoryMode s1
                                 else Some s1) of
                             None \<Rightarrow> None
                           | Some s2 \<Rightarrow> Some (callDataFlushedCallback ops s2, False))
                     else if fst result = [] then
                       Some (afterFeedingEOF ops generation
                         (Channel_feedWithoutRefGuard ops (fst result)
                            (s\<lparr>readerState := RS_FEEDING_EOF\<rparr>)), False)
                     else
                       Some (afterFeeding ops generation
                         (Channel_feedWithoutRefGuard ops (fst result)
                            (s\<lparr>inFileMode := Some (ifm\<lparr>
                                  readOffset := readOffset ifm + int (length (fst result)),
                                  written := written ifm - int (length (fst result))\<rparr>),
                                readerState := RS_FEEDING\<rparr>)))))
      | ERROR \<Rightarrow> None
      | ERROR_WAITING \<Rightarrow> None)"

text \<open>\<^verbatim>\<open>readNextWithoutRefGuard()\<close>: passes until one does not end in \<^verbatim>\<open>goto begin\<close>.\<close>

partial_function (option) readNextWithoutRefGuard ::
  "'w ChannelOps \<Rightarrow> FileBufferedChannelConfig \<Rightarrow> 'w FBC \<Rightarrow> 'w FBC option" where
  "readNextWithoutRefGuard ops cfg s =
     (case readNextPass ops cfg s of
        None \<Rightarrow> None
      | Some r \<Rightarrow> if snd r then readNextWithoutRefGuard ops cfg (fst r) else Some (fst r))"

definition readNext :: "'w ChannelOps \<Rightarrow> FileBufferedChannelConfig \<Rightarrow> 'w FBC \<Rightarrow> 'w FBC option" where
  "readNext ops cfg s = readNextWithoutRefGuard ops cfg s"

definition channelHasBecomeIdle ::
  "'w ChannelOps \<Rightarrow> FileBufferedChannelConfig \<Rightarrow> 'w FBC \<Rightarrow> 'w FBC option" where
  "channelHasBecomeIdle ops cfg s = readNext ops cfg s"

text \<open>
  \<^verbatim>\<open>pread\<close>: the bytes of the file from \<open>offset\<close>, at most \<open>n\<close> of them; \<^verbatim>\<open>pwrite\<close>: the file
  with \<open>data\<close> at \<open>offset\<close>, zero bytes filling a gap after the old end.
\<close>

definition pread :: "string \<Rightarrow> int \<Rightarrow> nat \<Rightarrow> string" where
  "pread file offset n = take n (drop (nat offset) file)"

definition pwrite :: "string \<Rightarrow> int \<Rightarrow> string \<Rightarrow> string" where
  "pwrite file offset data =
     take (nat offset) file @ replicate (nat offset - length file) (CHR 0x00) @ data
       @ drop (nat offset + length data) file"

text \<open>
  \<^verbatim>\<open>nextChunkDoneReading(readContext)\<close>. The variable the source calls \<^verbatim>\<open>fd\<close> is the result
  of \<^verbatim>\<open>eio_read\<close>: the number of bytes read, which are the first bytes of the context's
  buffer.
\<close>

definition nextChunkDoneReading ::
  "'w ChannelOps \<Rightarrow> FileBufferedChannelConfig \<Rightarrow> ReadContext \<Rightarrow> int \<Rightarrow> int \<Rightarrow> 'w FBC
     \<Rightarrow> 'w FBC option" where
  "nextChunkDoneReading ops cfg rc result errorno s =
     (case inFileMode s of
        None \<Rightarrow> None
      | Some ifm0 \<Rightarrow>
          (let ifm = ifm0\<lparr>readRequest := None\<rparr>
           in if result \<noteq> -1 then
                (let generation = ch_generation ops (chan s);
                     buffer = take (nat result) (pread (fileData ifm) (rc_offset rc) (rc_size rc));
                     s1 = s\<lparr>inFileMode := Some (ifm\<lparr>
                              readOffset := readOffset ifm + int (length buffer),
                              written := written ifm - int (length buffer)\<rparr>),
                            readerState := RS_FEEDING\<rparr>;
                     s2 = Channel_feedWithoutRefGuard ops buffer s1
                 in if generation \<noteq> ch_generation ops (chan s2) \<or> modeGeError (mode s2)
                    then Some s2
                    else if ch_acceptingInput ops (chan s2)
                    then readNext ops cfg (s2\<lparr>readerState := RS_INACTIVE\<rparr>)
                    else if ch_mayAcceptInputLater ops (chan s2)
                    then Some (readNextWhenChannelIdle s2)
                    else Some (terminateReaderBecauseOfEOF ops s2))
              else setError ops errorno (s\<lparr>inFileMode := Some ifm\<rparr>)))"

subsection \<open>Public member functions\<close>

definition onChannelConsumed ::
  "'w ChannelOps \<Rightarrow> FileBufferedChannelConfig \<Rightarrow> 'w FBC \<Rightarrow> 'w FBC option" where
  "onChannelConsumed ops cfg s =
     (if readerState s = RS_WAITING_FOR_CHANNEL_IDLE then
        (if ch_acceptingInput ops (chan s) then channelHasBecomeIdle ops cfg s
         else Some (channelEndedWhileWaitingForItToBecomeIdle ops s))
      else if mode s = ERROR_WAITING then Some (feedErrorWhenChannelIdleOrEnded ops s)
      else Some s)"

definition feedWithoutRefGuard ::
  "'w ChannelOps \<Rightarrow> FileBufferedChannelConfig \<Rightarrow> mbuf \<Rightarrow> 'w FBC \<Rightarrow> 'w FBC option" where
  "feedWithoutRefGuard ops cfg buffer s =
     (case ended ops s of
        None \<Rightarrow> None
      | Some True \<Rightarrow> Some s
      | Some False \<Rightarrow>
          (let s1 = pushBuffer buffer s
           in case (if mode s1 = IN_MEMORY_MODE \<and> passedThreshold cfg s1
                    then switchToInFileMode cfg s1
                    else if mode s1 = IN_FILE_MODE then
                      (case inFileMode s1 of
                         None \<Rightarrow> None
                       | Some ifm \<Rightarrow>
                           if writerState ifm = WS_INACTIVE \<and> autoStartMover cfg
                           then moveNextBufferToFile s1 else Some s1)
                    else Some s1) of
                None \<Rightarrow> None
              | Some s2 \<Rightarrow>
                  if readerState s2 = RS_INACTIVE then
                    (if ch_acceptingInput ops (chan s2) then readNextWithoutRefGuard ops cfg s2
                     else Some (readNextWhenChannelIdle s2))
                  else Some s2))"

definition feed ::
  "'w ChannelOps \<Rightarrow> FileBufferedChannelConfig \<Rightarrow> mbuf \<Rightarrow> 'w FBC \<Rightarrow> 'w FBC option" where
  "feed ops cfg buffer s = feedWithoutRefGuard ops cfg buffer s"

definition feedError :: "'w ChannelOps \<Rightarrow> int \<Rightarrow> 'w FBC \<Rightarrow> 'w FBC option" where
  "feedError ops e s = setError ops e s"

definition reinitialize :: "'w ChannelOps \<Rightarrow> 'w FBC \<Rightarrow> 'w FBC option" where
  "reinitialize ops s = Some (s\<lparr>chan := ch_reinitialize ops (chan s)\<rparr>)"

definition deinitialize :: "'w ChannelOps \<Rightarrow> 'w FBC \<Rightarrow> 'w FBC option" where
  "deinitialize ops s =
     (case cancelReader s of
        None \<Rightarrow> None
      | Some s1 \<Rightarrow>
          (case (if mode s1 = IN_FILE_MODE then cancelWriter s1 else Some s1) of
             None \<Rightarrow> None
           | Some s2 \<Rightarrow>
               (let s3 = (clearBuffers s2)\<lparr>mode := IN_MEMORY_MODE, readerState := RS_INACTIVE,
                           errcode := 0, inFileMode := None\<rparr>
                in Some (s3\<lparr>chan := ch_deinitialize ops (chan s3)\<rparr>))))"

text \<open>
  \<^verbatim>\<open>consumed(size, end)\<close> delegates to \<^verbatim>\<open>Channel::consumed\<close>, which notifies the subscriber
  installed by the constructor, \<^verbatim>\<open>Channel::consumedCallback = onChannelConsumed\<close>.
\<close>

definition consumed ::
  "'w ChannelOps \<Rightarrow> FileBufferedChannelConfig \<Rightarrow> nat \<Rightarrow> bool \<Rightarrow> 'w FBC \<Rightarrow> 'w FBC option" where
  "consumed ops cfg n eof s =
     onChannelConsumed ops cfg (s\<lparr>chan := ch_consumed ops n eof (chan s)\<rparr>)"

subsection \<open>Entry points as events\<close>

text \<open>
  The calls that reach the object from outside: the public member functions and the
  completions of the libeio requests, each with libeio's \<^verbatim>\<open>result\<close> and \<^verbatim>\<open>errorno\<close>.
\<close>

datatype Event =
  Feed mbuf
  | FeedError int
  | Reinitialize
  | Deinitialize
  | Consumed nat bool
  | BufferFileDoneDelaying
  | BufferFileCreated int int
  | BufferWrittenToFile int int
  | NextChunkDoneReading int int

text \<open>
  \<^verbatim>\<open>_bufferFileDoneDelaying_onEventLoopThread\<close>: nothing happens for a canceled context.
\<close>

definition bufferFileDoneDelaying_onEventLoopThread :: "'w FBC \<Rightarrow> 'w FBC option" where
  "bufferFileDoneDelaying_onEventLoopThread s =
     (case inFileMode s of
        None \<Rightarrow> Some s
      | Some ifm \<Rightarrow>
          (case writerRequest ifm of
             Some (FileCreationContext True) \<Rightarrow> bufferFileDoneDelaying s
           | _ \<Rightarrow> Some s))"

definition bufferFileCreated_onEventLoopThread ::
  "'w ChannelOps \<Rightarrow> FileBufferedChannelConfig \<Rightarrow> int \<Rightarrow> int \<Rightarrow> 'w FBC \<Rightarrow> 'w FBC option" where
  "bufferFileCreated_onEventLoopThread ops cfg result errorno s =
     (case inFileMode s of
        None \<Rightarrow> Some s
      | Some ifm \<Rightarrow>
          (case writerRequest ifm of
             Some (FileCreationContext False) \<Rightarrow> bufferFileCreated ops cfg result errorno s
           | _ \<Rightarrow> Some s))"

text \<open>
  What the completed \<^verbatim>\<open>eio_write\<close> of a move context has done to the file: \<open>result\<close> bytes
  of the request's data are in the file at the request's offset.
\<close>

definition eio_write_done :: "MoveContext \<Rightarrow> int \<Rightarrow> string \<Rightarrow> string" where
  "eio_write_done mc result file =
     (if result \<noteq> -1 then pwrite file (mc_reqOffset mc) (take (nat result) (mc_reqData mc))
      else file)"

definition bufferWrittenToFile_onEventLoopThread ::
  "'w ChannelOps \<Rightarrow> int \<Rightarrow> int \<Rightarrow> 'w FBC \<Rightarrow> 'w FBC option" where
  "bufferWrittenToFile_onEventLoopThread ops result errorno s =
     (case inFileMode s of
        None \<Rightarrow> Some s
      | Some ifm \<Rightarrow>
          (case writerRequest ifm of
             Some (MoveCtx mc) \<Rightarrow>
               bufferWrittenToFile ops mc result errorno
                 (s\<lparr>inFileMode := Some (ifm\<lparr>fileData := eio_write_done mc result (fileData ifm)\<rparr>)\<rparr>)
           | _ \<Rightarrow> Some s))"

definition nextChunkDoneReading_onEventLoopThread ::
  "'w ChannelOps \<Rightarrow> FileBufferedChannelConfig \<Rightarrow> int \<Rightarrow> int \<Rightarrow> 'w FBC \<Rightarrow> 'w FBC option" where
  "nextChunkDoneReading_onEventLoopThread ops cfg result errorno s =
     (case inFileMode s of
        None \<Rightarrow> Some s
      | Some ifm \<Rightarrow>
          (case readRequest ifm of
             Some rc \<Rightarrow> nextChunkDoneReading ops cfg rc result errorno s
           | None \<Rightarrow> Some s))"

fun step ::
  "'w ChannelOps \<Rightarrow> FileBufferedChannelConfig \<Rightarrow> Event \<Rightarrow> 'w FBC \<Rightarrow> 'w FBC option" where
  "step ops cfg (Feed buffer) s = feed ops cfg buffer s"
| "step ops cfg (FeedError e) s = feedError ops e s"
| "step ops cfg Reinitialize s = reinitialize ops s"
| "step ops cfg Deinitialize s = deinitialize ops s"
| "step ops cfg (Consumed n eof) s = consumed ops cfg n eof s"
| "step ops cfg BufferFileDoneDelaying s = bufferFileDoneDelaying_onEventLoopThread s"
| "step ops cfg (BufferFileCreated result errorno) s =
     bufferFileCreated_onEventLoopThread ops cfg result errorno s"
| "step ops cfg (BufferWrittenToFile result errorno) s =
     bufferWrittenToFile_onEventLoopThread ops result errorno s"
| "step ops cfg (NextChunkDoneReading result errorno) s =
     nextChunkDoneReading_onEventLoopThread ops cfg result errorno s"

fun run ::
  "'w ChannelOps \<Rightarrow> FileBufferedChannelConfig \<Rightarrow> Event list \<Rightarrow> 'w FBC \<Rightarrow> 'w FBC option" where
  "run ops cfg [] s = Some s"
| "run ops cfg (e # es) s =
     (case step ops cfg e s of None \<Rightarrow> None | Some s1 \<Rightarrow> run ops cfg es s1)"

subsection \<open>An underlying channel with its consumer\<close>

text \<open>
  Modelled from the spec: the base class \<^verbatim>\<open>Channel\<close> (ServerKit/Channel.h is not among the
  sources). The spec gives its states, says that it accepts input exactly when it is
  \<^verbatim>\<open>IDLE\<close>, that an empty buffer fed to it signals the end of the stream, that the consumer
  acknowledges with \<^verbatim>\<open>consumed(n, end)\<close>, and that \<^verbatim>\<open>reinitialize\<close> and \<^verbatim>\<open>deinitialize\<close>
  bump the generation. The consumer is the data callback: with \<open>sync\<close> it consumes every
  buffer inside the callback, without it every buffer is consumed by a later
  \<^verbatim>\<open>consumed(n, false)\<close>. It never refuses data. \<open>received\<close> lists what the data callback
  was called with.
\<close>

datatype ChannelState =
  IDLE | CALLING | CALLING_WITH_EOF_ACK | STOPPED | EOF_REACHED | EOF_ACKED | ERROR_ACKED

datatype Delivery = Data mbuf | EndOfStream | Failure int

record Channel =
  state :: ChannelState
  generation :: nat
  received :: "Delivery list"
  buffersFlushedCalls :: nat
  dataFlushedCalls :: nat

definition newChannel :: Channel where
  "newChannel = \<lparr> state = IDLE, generation = 0, received = [], buffersFlushedCalls = 0,
     dataFlushedCalls = 0 \<rparr>"

definition Channel_feed :: "bool \<Rightarrow> mbuf \<Rightarrow> Channel \<Rightarrow> Channel" where
  "Channel_feed sync buffer c =
     (if buffer = [] then c\<lparr>state := EOF_REACHED, received := received c @ [EndOfStream]\<rparr>
      else c\<lparr>state := (if sync then IDLE else CALLING),
             received := received c @ [Data buffer]\<rparr>)"

definition Channel_feedError :: "int \<Rightarrow> Channel \<Rightarrow> Channel" where
  "Channel_feedError e c = c\<lparr>state := ERROR_ACKED, received := received c @ [Failure e]\<rparr>"

definition Channel_consumed :: "nat \<Rightarrow> bool \<Rightarrow> Channel \<Rightarrow> Channel" where
  "Channel_consumed n eof c =
     (if state c = CALLING then c\<lparr>state := (if eof then EOF_REACHED else IDLE)\<rparr> else c)"

definition Channel_ops :: "bool \<Rightarrow> Channel ChannelOps" where
  "Channel_ops sync = \<lparr>
     ch_feed = Channel_feed sync,
     ch_feedError = Channel_feedError,
     ch_acceptingInput = (\<lambda>c. state c = IDLE),
     ch_mayAcceptInputLater = (\<lambda>c. state c = IDLE \<or> state c = CALLING \<or> state c = STOPPED),
     ch_isIdle = (\<lambda>c. state c = IDLE),
     ch_ended = (\<lambda>c. state c = EOF_REACHED \<or> state c = EOF_ACKED \<or> state c = ERROR_ACKED),
     ch_consumed = Channel_consumed,
     ch_reinitialize = (\<lambda>c. c\<lparr>state := IDLE, generation := generation c + 1\<rparr>),
     ch_deinitialize = (\<lambda>c. c\<lparr>generation := generation c + 1\<rparr>),
     ch_generation = generation,
     cb_buffersFlushed = (\<lambda>c. c\<lparr>buffersFlushedCalls := buffersFlushedCalls c + 1\<rparr>),
     cb_dataFlushed = (\<lambda>c. c\<lparr>dataFlushedCalls := dataFlushedCalls c + 1\<rparr>) \<rparr>"

subsection \<open>Invariants\<close>

text \<open>
  The invariant documented at the member \<^verbatim>\<open>errcode\<close>; the one documented at the member
  \<^verbatim>\<open>inFileMode\<close> together with the one documented at the modes \<^verbatim>\<open>ERROR\<close> and
  \<^verbatim>\<open>ERROR_WAITING\<close>; and both, the first only when \<open>k\<close> holds.
\<close>

definition errcodeInvariant :: "'w FBC \<Rightarrow> bool" where
  "errcodeInvariant s = ((errcode s = 0) = (\<not> modeGeError (mode s)))"

definition modeInvariants :: "'w FBC \<Rightarrow> bool" where
  "modeInvariants s =
     (((inFileMode s \<noteq> None) = (mode s = IN_FILE_MODE))
      \<and> (modeGeError (mode s) \<longrightarrow> readerState s = RS_TERMINATED \<and> inFileMode s = None))"

definition invK :: "bool \<Rightarrow> 'w FBC \<Rightarrow> bool" where
  "invK k s = (modeInvariants s \<and> (k \<longrightarrow> errcodeInvariant s))"

text \<open>
  An event carries a proper error code: the argument of \<^verbatim>\<open>feedError\<close> is not 0, and a
  failed libeio request (\<^verbatim>\<open>result\<close> -1) reports an \<^verbatim>\<open>errorno\<close> that is not 0.
\<close>

fun errorCodeNonzero :: "Event \<Rightarrow> bool" where
  "errorCodeNonzero (FeedError e) = (e \<noteq> 0)"
| "errorCodeNonzero (BufferFileCreated result errorno) = (result = -1 \<longrightarrow> errorno \<noteq> 0)"
| "errorCodeNonzero (BufferWrittenToFile result errorno) = (result = -1 \<longrightarrow> errorno \<noteq> 0)"
| "errorCodeNonzero (NextChunkDoneReading result errorno) = (result = -1 \<longrightarrow> errorno \<noteq> 0)"
| "errorCodeNonzero _ = True"


text \<open>
  The pointers that \<^verbatim>\<open>cancelReader()\<close> and \<^verbatim>\<open>cancelWriter()\<close> dereference: one direction of
  the invariants documented at \<^verbatim>\<open>readRequest\<close> and \<^verbatim>\<open>writerRequest\<close>.
\<close>

definition requestInvariants :: "'w FBC \<Rightarrow> bool" where
  "requestInvariants s =
     ((readerState s = RS_READING_FROM_FILE
         \<longrightarrow> (case inFileMode s of None \<Rightarrow> False | Some ifm \<Rightarrow> readRequest ifm \<noteq> None))
      \<and> (case inFileMode s of
            None \<Rightarrow> True
          | Some ifm \<Rightarrow>
              writerState ifm = WS_CREATING_FILE \<or> writerState ifm = WS_MOVING
                \<longrightarrow> writerRequest ifm \<noteq> None))"

definition wellFormed :: "'w FBC \<Rightarrow> bool" where
  "wellFormed s = (invK False s \<and> requestInvariants s)"

text \<open>
  The other direction of these two invariants: a request pointer that is set belongs to a
  reader that is reading from the file, or to a writer that is creating the file or moving.
\<close>

definition requestsTracked :: "'w FBC \<Rightarrow> bool" where
  "requestsTracked s =
     (case inFileMode s of
        None \<Rightarrow> True
      | Some ifm \<Rightarrow>
          (readRequest ifm \<noteq> None \<longrightarrow> readerState s = RS_READING_FROM_FILE)
          \<and> (writerRequest ifm \<noteq> None
               \<longrightarrow> writerState ifm = WS_CREATING_FILE \<or> writerState ifm = WS_MOVING))"

text \<open>
  The asynchronous I/O requests that the object has outstanding: the read request and the
  writer request of the in-file state, where there are any.
\<close>

definition outstandingRequests :: "'w FBC \<Rightarrow> RequestContext list" where
  "outstandingRequests s =
     (case inFileMode s of
        None \<Rightarrow> []
      | Some ifm \<Rightarrow>
          (case readRequest ifm of None \<Rightarrow> [] | Some rc \<Rightarrow> [ReadRequest rc])
          @ (case writerRequest ifm of None \<Rightarrow> [] | Some ctx \<Rightarrow> [WriterRequest ctx]))"

text \<open>The three global invariants together, as the spec lists them.\<close>

definition globalInvariants :: "'w FBC \<Rightarrow> bool" where
  "globalInvariants s =
     (((errcode s = 0) = (mode s = IN_MEMORY_MODE \<or> mode s = IN_FILE_MODE))
      \<and> ((inFileMode s \<noteq> None) = (mode s = IN_FILE_MODE))
      \<and> (mode s = ERROR \<or> mode s = ERROR_WAITING
           \<longrightarrow> readerState s = RS_TERMINATED \<and> inFileMode s = None))"

subsection \<open>The walk of the reader, in the words of the spec\<close>

text \<open>
  The target of the walk, \<^verbatim>\<open>-written\<close> as the 32-bit \<^verbatim>\<open>target\<close>, and the cumulative size of
  the buffers before the one at index \<open>i\<close> of \<^verbatim>\<open>moreBuffers\<close> (the first buffer and \<open>i\<close>
  further ones), as the 32-bit \<^verbatim>\<open>offset\<close>.
\<close>

definition walkTarget :: "InFileMode \<Rightarrow> 32 word" where
  "walkTarget ifm = word_of_int (- written ifm)"

definition cumulativeSize :: "'w FBC \<Rightarrow> nat \<Rightarrow> 32 word" where
  "cumulativeSize s i =
     of_nat (length (firstBuffer s) + sum_list (map length (take i (moreBuffers s))))"

subsection \<open>The queue and the lead of the reader over the writer\<close>

text \<open>The buffers of the queue, first to last, and that \<^verbatim>\<open>nbuffers\<close> counts them.\<close>

definition bufferQueue :: "'w FBC \<Rightarrow> mbuf list" where
  "bufferQueue s = (if nbuffers s = 0 then [] else firstBuffer s # moreBuffers s)"

definition queueCounted :: "'w FBC \<Rightarrow> bool" where
  "queueCounted s =
     (if nbuffers s = 0 then moreBuffers s = []
      else unat (nbuffers s) = Suc (length (moreBuffers s)))"

text \<open>
  With \<^verbatim>\<open>written <= 0\<close> the reader is ahead of the writer: it has served the first \<open>k\<close>
  buffers of the queue from memory, which the writer has still to move to the file.
  \<^verbatim>\<open>-written\<close> is their size, and none of them is the empty buffer, at which the reader
  stops.
\<close>

definition servedPrefix :: "'w FBC \<Rightarrow> InFileMode \<Rightarrow> nat \<Rightarrow> bool" where
  "servedPrefix s ifm k =
     (k \<le> length (bufferQueue s)
      \<and> - written ifm = int (sum_list (map length (take k (bufferQueue s))))
      \<and> [] \<notin> set (take k (bufferQueue s)))"

text \<open>
  What holds of \<^verbatim>\<open>written\<close> and of the requests as long as the counters do not wrap: the
  reader's lead is a prefix of the queue; a read request asks for no more than the file
  holds unread; a move request is for the first buffer of the queue, which is not empty.
  \<open>n\<close> and \<open>m\<close> bound the number of the queued buffers and of their bytes.
\<close>

definition queueInvariants :: "nat \<Rightarrow> nat \<Rightarrow> 'w FBC \<Rightarrow> bool" where
  "queueInvariants n m s =
     (queueCounted s
      \<and> length (bufferQueue s) \<le> n
      \<and> sum_list (map length (bufferQueue s)) \<le> m
      \<and> (case inFileMode s of
            None \<Rightarrow> True
          | Some ifm \<Rightarrow>
              (written ifm \<le> 0 \<longrightarrow> (\<exists>k. servedPrefix s ifm k))
              \<and> (case readRequest ifm of
                    None \<Rightarrow> True
                  | Some rc \<Rightarrow> int (rc_size rc) \<le> written ifm)
              \<and> (case writerRequest ifm of
                    Some (MoveCtx mc) \<Rightarrow>
                      nbuffers s \<noteq> 0 \<and> mc_buffer mc = firstBuffer s \<and> firstBuffer s \<noteq> []
                  | _ \<Rightarrow> True)))"

text \<open>The number of bytes that the events of a sequence feed.\<close>

fun fedBytes :: "Event list \<Rightarrow> nat" where
  "fedBytes [] = 0"
| "fedBytes (Feed buffer # es) = length buffer + fedBytes es"
| "fedBytes (e # es) = fedBytes es"

subsection \<open>Sample configurations\<close>

definition sampleConfig :: "32 word \<Rightarrow> bool \<Rightarrow> FileBufferedChannelConfig" where
  "sampleConfig t tr = \<lparr> threshold = t, delayInFileModeSwitching = 0,
     autoTruncateFile = tr, autoStartMover = True, mbufPoolDataSize = 64 \<rparr>"

section \<open>Properties\<close>

subsection \<open>What the small functions leave alone\<close>

lemma IOContext_cancel_fields [simp]:
  "mode (IOContext_cancel c s) = mode s" "readerState (IOContext_cancel c s) = readerState s"
  "errcode (IOContext_cancel c s) = errcode s" "inFileMode (IOContext_cancel c s) = inFileMode s"
  "chan (IOContext_cancel c s) = chan s" "nbuffers (IOContext_cancel c s) = nbuffers s"
  "bytesBuffered (IOContext_cancel c s) = bytesBuffered s"
  "firstBuffer (IOContext_cancel c s) = firstBuffer s"
  "moreBuffers (IOContext_cancel c s) = moreBuffers s"
  "canceledContexts (IOContext_cancel c s) = canceledContexts s @ [c]"
  by (simp_all add: IOContext_cancel_def)

lemma invK_fields:
  "mode s' = mode s \<Longrightarrow> errcode s' = errcode s \<Longrightarrow> inFileMode s' = inFileMode s
   \<Longrightarrow> readerState s' = readerState s \<Longrightarrow> invK k s \<Longrightarrow> invK k s'"
  by (simp add: invK_def modeInvariants_def errcodeInvariant_def)

lemma invK_reader:
  "mode s' = mode s \<Longrightarrow> errcode s' = errcode s \<Longrightarrow> (inFileMode s' = None) = (inFileMode s = None)
   \<Longrightarrow> (modeGeError (mode s) \<longrightarrow> readerState s' = RS_TERMINATED) \<Longrightarrow> invK k s \<Longrightarrow> invK k s'"
  by (auto simp add: invK_def modeInvariants_def errcodeInvariant_def)

lemma pushBuffer_fields [simp]:
  "mode (pushBuffer b s) = mode s" "readerState (pushBuffer b s) = readerState s"
  "errcode (pushBuffer b s) = errcode s" "inFileMode (pushBuffer b s) = inFileMode s"
  "chan (pushBuffer b s) = chan s"
  by (simp_all add: pushBuffer_def Let_def)

lemma popBuffer_fields [simp]:
  "mode (popBuffer ops s) = mode s" "readerState (popBuffer ops s) = readerState s"
  "errcode (popBuffer ops s) = errcode s" "inFileMode (popBuffer ops s) = inFileMode s"
  by (simp_all add: popBuffer_def Let_def callBuffersFlushedCallback_def split: list.splits)

lemma callDataFlushedCallback_fields [simp]:
  "mode (callDataFlushedCallback ops s) = mode s"
  "readerState (callDataFlushedCallback ops s) = readerState s"
  "errcode (callDataFlushedCallback ops s) = errcode s"
  "inFileMode (callDataFlushedCallback ops s) = inFileMode s"
  "nbuffers (callDataFlushedCallback ops s) = nbuffers s"
  "bytesBuffered (callDataFlushedCallback ops s) = bytesBuffered s"
  "firstBuffer (callDataFlushedCallback ops s) = firstBuffer s"
  "moreBuffers (callDataFlushedCallback ops s) = moreBuffers s"
  by (simp_all add: callDataFlushedCallback_def)

lemma Channel_feedWithoutRefGuard_fields [simp]:
  "mode (Channel_feedWithoutRefGuard ops b s) = mode s"
  "readerState (Channel_feedWithoutRefGuard ops b s) = readerState s"
  "errcode (Channel_feedWithoutRefGuard ops b s) = errcode s"
  "inFileMode (Channel_feedWithoutRefGuard ops b s) = inFileMode s"
  "nbuffers (Channel_feedWithoutRefGuard ops b s) = nbuffers s"
  "bytesBuffered (Channel_feedWithoutRefGuard ops b s) = bytesBuffered s"
  "firstBuffer (Channel_feedWithoutRefGuard ops b s) = firstBuffer s"
  "moreBuffers (Channel_feedWithoutRefGuard ops b s) = moreBuffers s"
  by (simp_all add: Channel_feedWithoutRefGuard_def)

lemma terminateReaderBecauseOfEOF_fields [simp]:
  "mode (terminateReaderBecauseOfEOF ops s) = mode s"
  "readerState (terminateReaderBecauseOfEOF ops s) = RS_TERMINATED"
  "errcode (terminateReaderBecauseOfEOF ops s) = errcode s"
  "inFileMode (terminateReaderBecauseOfEOF ops s) = inFileMode s"
  "nbuffers (terminateReaderBecauseOfEOF ops s) = nbuffers s"
  "bytesBuffered (terminateReaderBecauseOfEOF ops s) = bytesBuffered s"
  "firstBuffer (terminateReaderBecauseOfEOF ops s) = firstBuffer s"
  "moreBuffers (terminateReaderBecauseOfEOF ops s) = moreBuffers s"
  by (simp_all add: terminateReaderBecauseOfEOF_def)

lemma readNextWhenChannelIdle_fields [simp]:
  "mode (readNextWhenChannelIdle s) = mode s"
  "readerState (readNextWhenChannelIdle s) = RS_WAITING_FOR_CHANNEL_IDLE"
  "errcode (readNextWhenChannelIdle s) = errcode s"
  "inFileMode (readNextWhenChannelIdle s) = inFileMode s"
  "nbuffers (readNextWhenChannelIdle s) = nbuffers s"
  "bytesBuffered (readNextWhenChannelIdle s) = bytesBuffered s"
  "firstBuffer (readNextWhenChannelIdle s) = firstBuffer s"
  "moreBuffers (readNextWhenChannelIdle s) = moreBuffers s"
  "chan (readNextWhenChannelIdle s) = chan s"
  by (simp_all add: readNextWhenChannelIdle_def)

lemma afterFeeding_fields:
  "mode (fst (afterFeeding ops g s)) = mode s"
  "errcode (fst (afterFeeding ops g s)) = errcode s"
  "inFileMode (fst (afterFeeding ops g s)) = inFileMode s"
  "modeGeError (mode s) \<Longrightarrow> readerState (fst (afterFeeding ops g s)) = readerState s"
  by (simp_all add: afterFeeding_def)

lemma afterFeedingEOF_fields:
  "mode (afterFeedingEOF ops g s) = mode s"
  "errcode (afterFeedingEOF ops g s) = errcode s"
  "inFileMode (afterFeedingEOF ops g s) = inFileMode s"
  "modeGeError (mode s) \<Longrightarrow> readerState (afterFeedingEOF ops g s) = readerState s"
  by (simp_all add: afterFeedingEOF_def)

lemma cancelReader_Some:
  "cancelReader s = Some s' \<Longrightarrow>
     mode s' = mode s \<and> readerState s' = readerState s \<and> errcode s' = errcode s
     \<and> (inFileMode s' = None) = (inFileMode s = None) \<and> chan s' = chan s
     \<and> nbuffers s' = nbuffers s \<and> bytesBuffered s' = bytesBuffered s
     \<and> firstBuffer s' = firstBuffer s \<and> moreBuffers s' = moreBuffers s"
  by (auto simp: cancelReader_def split: ReaderState.splits option.splits)

lemma cancelWriter_Some:
  "cancelWriter s = Some s' \<Longrightarrow>
     mode s' = mode s \<and> readerState s' = readerState s \<and> errcode s' = errcode s
     \<and> inFileMode s \<noteq> None \<and> inFileMode s' \<noteq> None \<and> chan s' = chan s
     \<and> nbuffers s' = nbuffers s \<and> bytesBuffered s' = bytesBuffered s
     \<and> firstBuffer s' = firstBuffer s \<and> moreBuffers s' = moreBuffers s"
  by (auto simp: cancelWriter_def split: WriterState.splits option.splits)

lemma setError_Some:
  "setError ops e s = Some s' \<Longrightarrow>
     (modeGeError (mode s) \<and> s' = s)
     \<or> (\<not> modeGeError (mode s) \<and> modeGeError (mode s') \<and> readerState s' = RS_TERMINATED
        \<and> errcode s' = e \<and> inFileMode s' = None)"
  by (auto simp: setError_def Let_def split: if_splits option.splits)

lemma setError_invK:
  "invK k s \<Longrightarrow> (k \<longrightarrow> e \<noteq> 0) \<Longrightarrow> setError ops e s = Some s' \<Longrightarrow> invK k s'"
  by (drule setError_Some) (auto simp: invK_def modeInvariants_def errcodeInvariant_def)

lemma createBufferFile_Some:
  "createBufferFile cfg s = Some s' \<Longrightarrow>
     mode s' = mode s \<and> readerState s' = readerState s \<and> errcode s' = errcode s
     \<and> inFileMode s \<noteq> None \<and> inFileMode s' \<noteq> None \<and> chan s' = chan s"
  by (auto simp: createBufferFile_def split: option.splits)

lemma moveNextBufferToFile_Some:
  "moveNextBufferToFile s = Some s' \<Longrightarrow>
     mode s' = mode s \<and> readerState s' = readerState s \<and> errcode s' = errcode s
     \<and> inFileMode s \<noteq> None \<and> inFileMode s' \<noteq> None \<and> chan s' = chan s"
  by (auto simp: moveNextBufferToFile_def split: option.splits if_splits)

lemma switchToInFileMode_Some:
  "switchToInFileMode cfg s = Some s' \<Longrightarrow>
     mode s' = IN_FILE_MODE \<and> readerState s' = readerState s \<and> errcode s' = errcode s
     \<and> inFileMode s' \<noteq> None \<and> chan s' = chan s"
  by (auto simp: switchToInFileMode_def dest!: createBufferFile_Some)

lemma switchToInMemoryMode_Some:
  "switchToInMemoryMode s = Some s' \<Longrightarrow>
     mode s' = IN_MEMORY_MODE \<and> readerState s' = readerState s \<and> errcode s' = errcode s
     \<and> inFileMode s' = None \<and> chan s' = chan s \<and> inFileMode s \<noteq> None"
  by (auto simp: switchToInMemoryMode_def clearBuffers_def split: option.splits dest!: cancelWriter_Some)

lemma readNextChunkFromFile_Some:
  "readNextChunkFromFile cfg s = Some s' \<Longrightarrow>
     mode s' = mode s \<and> errcode s' = errcode s
     \<and> inFileMode s \<noteq> None \<and> inFileMode s' \<noteq> None \<and> chan s' = chan s"
  by (auto simp: readNextChunkFromFile_def Let_def split: option.splits)

lemma readNextPass_invK:
  assumes "invK k s" "readNextPass ops cfg s = Some r"
  shows "invK k (fst r)"
proof (cases "mode s")
  case IN_MEMORY_MODE
  with assms show ?thesis
    by (auto simp: readNextPass_def Let_def invK_def modeInvariants_def errcodeInvariant_def
        afterFeeding_fields afterFeedingEOF_fields split: if_splits)
next
  case IN_FILE_MODE
  with assms show ?thesis
    by (auto simp: readNextPass_def Let_def invK_def modeInvariants_def errcodeInvariant_def
        afterFeeding_fields afterFeedingEOF_fields split: if_splits option.splits
        dest!: readNextChunkFromFile_Some switchToInMemoryMode_Some)
next
  case ERROR
  with assms show ?thesis by (simp add: readNextPass_def)
next
  case ERROR_WAITING
  with assms show ?thesis by (simp add: readNextPass_def)
qed

lemma readNextWithoutRefGuard_rule:
  assumes run: "readNextWithoutRefGuard ops cfg s = Some s'"
    and pass: "\<And>t r. Q t \<Longrightarrow> readNextPass ops cfg t = Some r \<Longrightarrow>
                 (if snd r then Q (fst r) else R (fst r))"
    and start: "Q s"
  shows "R s'"
proof -
  have "ops = ops \<longrightarrow> cfg = cfg \<longrightarrow> Q s \<longrightarrow> R s'"
  proof (rule readNextWithoutRefGuard.raw_induct
      [where P = "\<lambda>ops1 cfg1 t y. ops1 = ops \<longrightarrow> cfg1 = cfg \<longrightarrow> Q t \<longrightarrow> R y", OF _ run])
    fix rec ops1 cfg1 t y
    assume ih: "\<And>o1 c1 t1 y1. rec o1 c1 t1 = Some y1 \<Longrightarrow>
                  o1 = ops \<longrightarrow> c1 = cfg \<longrightarrow> Q t1 \<longrightarrow> R y1"
      and body: "(case readNextPass ops1 cfg1 t of None \<Rightarrow> None
                  | Some r \<Rightarrow> if snd r then rec ops1 cfg1 (fst r) else Some (fst r)) = Some y"
    show "ops1 = ops \<longrightarrow> cfg1 = cfg \<longrightarrow> Q t \<longrightarrow> R y"
    proof (intro impI)
      assume eq: "ops1 = ops" "cfg1 = cfg" and q: "Q t"
      from body obtain r where r: "readNextPass ops1 cfg1 t = Some r"
        and res: "(if snd r then rec ops1 cfg1 (fst r) else Some (fst r)) = Some y"
        by (auto split: option.splits)
      from pass[OF q] r eq have step: "if snd r then Q (fst r) else R (fst r)" by simp
      show "R y"
      proof (cases "snd r")
        case True
        with res have "rec ops1 cfg1 (fst r) = Some y" by simp
        from ih[OF this] eq step True show ?thesis by simp
      next
        case False
        with res step show ?thesis by simp
      qed
    qed
  qed
  with start show ?thesis by blast
qed

lemma readNextWithoutRefGuard_invK:
  "invK k s \<Longrightarrow> readNextWithoutRefGuard ops cfg s = Some s' \<Longrightarrow> invK k s'"
  by (erule readNextWithoutRefGuard_rule[where Q = "invK k" and R = "invK k", rotated 2])
     (auto dest: readNextPass_invK)

subsection \<open>Feeding after the end\<close>

lemma ended_True_iff:
  "(ended ops s = Some True) =
     ((hasBuffers s \<and> peekLastBuffer s = Some [])
      \<or> ((hasBuffers s \<longrightarrow> peekLastBuffer s \<noteq> None)
          \<and> (mode s = ERROR \<or> mode s = ERROR_WAITING \<or> ch_ended ops (chan s))))"
  by (cases "mode s") (auto simp: ended_def split: option.splits)

text \<open>
  C6. In every state in which \<^verbatim>\<open>ended()\<close> returns true, \<^verbatim>\<open>feed(buffer)\<close> returns with the
  object unchanged: the buffer is not enqueued, and \<^verbatim>\<open>nbuffers\<close>, \<^verbatim>\<open>bytesBuffered\<close>, the
  mode, the reader state, the in-file state with its writer state, and the underlying
  channel are what they were.
\<close>

theorem feed_when_ended_is_noop:
  assumes "ended ops s = Some True"
  shows "feed ops cfg buffer s = Some s"
  using assms by (simp add: feed_def feedWithoutRefGuard_def)

theorem feed_when_ended_is_noop_witness:
  "ended (Channel_ops True)
     ((FileBufferedChannel newChannel)\<lparr>nbuffers := 2, bytesBuffered := 3,
        firstBuffer := ''abc'', moreBuffers := [[]]\<rparr>) = Some True
   \<and> feed (Channel_ops True)
       \<lparr> threshold = 16, delayInFileModeSwitching = 0, autoTruncateFile = True,
         autoStartMover = True, mbufPoolDataSize = 64 \<rparr> ''x''
       ((FileBufferedChannel newChannel)\<lparr>nbuffers := 2, bytesBuffered := 3,
          firstBuffer := ''abc'', moreBuffers := [[]]\<rparr>)
     = Some ((FileBufferedChannel newChannel)\<lparr>nbuffers := 2, bytesBuffered := 3,
          firstBuffer := ''abc'', moreBuffers := [[]]\<rparr>)"
proof -
  have e: "ended (Channel_ops True)
     ((FileBufferedChannel newChannel)\<lparr>nbuffers := 2, bytesBuffered := 3,
        firstBuffer := ''abc'', moreBuffers := [[]]\<rparr>) = Some True"
    by (simp add: ended_def hasBuffers_def peekLastBuffer_def FileBufferedChannel_def
        word_le_nat_alt)
  show ?thesis
    using e feed_when_ended_is_noop [OF e] by simp
qed

subsection \<open>Setting an error twice\<close>

text \<open>
  C8. In the modes \<^verbatim>\<open>ERROR\<close> and \<^verbatim>\<open>ERROR_WAITING\<close>, \<^verbatim>\<open>setError(e)\<close>, and so \<^verbatim>\<open>feedError(e)\<close>,
  returns with the object unchanged for every error code \<open>e\<close>: mode, error code, reader
  state, queue and in-file state stay, and the underlying channel is not called.
\<close>

theorem setError_idempotent:
  assumes "mode s = ERROR \<or> mode s = ERROR_WAITING"
  shows "setError ops e s = Some s \<and> feedError ops e s = Some s"
  using assms by (auto simp: setError_def feedError_def)

theorem setError_idempotent_witness:
  "(mode ((FileBufferedChannel newChannel)\<lparr>mode := ERROR_WAITING, errcode := 5,
        readerState := RS_TERMINATED\<rparr>) = ERROR
    \<or> mode ((FileBufferedChannel newChannel)\<lparr>mode := ERROR_WAITING, errcode := 5,
        readerState := RS_TERMINATED\<rparr>) = ERROR_WAITING)
   \<and> setError (Channel_ops False) 9
       ((FileBufferedChannel newChannel)\<lparr>mode := ERROR_WAITING, errcode := 5,
          readerState := RS_TERMINATED\<rparr>)
     = Some ((FileBufferedChannel newChannel)\<lparr>mode := ERROR_WAITING, errcode := 5,
          readerState := RS_TERMINATED\<rparr>)
   \<and> feedError (Channel_ops False) 9
       ((FileBufferedChannel newChannel)\<lparr>mode := ERROR_WAITING, errcode := 5,
          readerState := RS_TERMINATED\<rparr>)
     = Some ((FileBufferedChannel newChannel)\<lparr>mode := ERROR_WAITING, errcode := 5,
          readerState := RS_TERMINATED\<rparr>)"
proof -
  have m: "mode ((FileBufferedChannel newChannel)\<lparr>mode := ERROR_WAITING, errcode := 5,
        readerState := RS_TERMINATED\<rparr>) = ERROR
    \<or> mode ((FileBufferedChannel newChannel)\<lparr>mode := ERROR_WAITING, errcode := 5,
        readerState := RS_TERMINATED\<rparr>) = ERROR_WAITING"
    by simp
  show ?thesis
    using m setError_idempotent [OF m, of "Channel_ops False" 9] by simp
qed

subsection \<open>The invariants are kept by every entry point\<close>

lemma option_case_Some:
  "(case x of None \<Rightarrow> None | Some y \<Rightarrow> f y) = Some z \<Longrightarrow> \<exists>y. x = Some y \<and> f y = Some z"
  by (cases x) auto

lemma invK_chan_update [simp]: "invK k (s\<lparr>chan := c\<rparr>) = invK k s"
  by (simp add: invK_def modeInvariants_def errcodeInvariant_def)

lemma invK_IN_FILE:
  "invK k s \<Longrightarrow> inFileMode s = Some ifm \<Longrightarrow> mode s = IN_FILE_MODE"
  by (auto simp: invK_def modeInvariants_def)

lemma invK_update_inFileMode:
  "invK k s \<Longrightarrow> inFileMode s \<noteq> None \<Longrightarrow> invK k (s\<lparr>inFileMode := Some ifm\<rparr>)"
  by (auto simp: invK_def modeInvariants_def errcodeInvariant_def)

lemma invK_not_error:
  "invK k s \<Longrightarrow> \<not> modeGeError (mode s) \<Longrightarrow> mode s' = mode s \<Longrightarrow> errcode s' = errcode s
   \<Longrightarrow> (inFileMode s' = None) = (inFileMode s = None) \<Longrightarrow> invK k s'"
  by (auto simp: invK_def modeInvariants_def errcodeInvariant_def)

lemma switchToInFileMode_invK:
  "invK k s \<Longrightarrow> mode s = IN_MEMORY_MODE \<Longrightarrow> switchToInFileMode cfg s = Some s' \<Longrightarrow> invK k s'"
  by (drule switchToInFileMode_Some) (auto simp: invK_def modeInvariants_def errcodeInvariant_def)

lemma moveNextBufferToFile_invK:
  "invK k s \<Longrightarrow> moveNextBufferToFile s = Some s' \<Longrightarrow> invK k s'"
  by (drule moveNextBufferToFile_Some) (auto simp: invK_def modeInvariants_def errcodeInvariant_def)

lemma createBufferFile_invK:
  "invK k s \<Longrightarrow> createBufferFile cfg s = Some s' \<Longrightarrow> invK k s'"
  by (drule createBufferFile_Some) (auto simp: invK_def modeInvariants_def errcodeInvariant_def)

lemma ended_False_not_error:
  "ended ops s = Some False \<Longrightarrow> \<not> modeGeError (mode s)"
  by (auto simp: ended_def split: if_splits option.splits)

lemma feedWithoutRefGuard_invK:
  assumes inv: "invK k s" and run: "feedWithoutRefGuard ops cfg b s = Some s'"
  shows "invK k s'"
proof (cases "ended ops s")
  case None
  with run show ?thesis by (simp add: feedWithoutRefGuard_def)
next
  case (Some e)
  show ?thesis
  proof (cases e)
    case True
    with Some run inv show ?thesis by (simp add: feedWithoutRefGuard_def)
  next
    case False
    with Some have ne: "\<not> modeGeError (mode s)" by (simp add: ended_False_not_error)
    let ?s1 = "pushBuffer b s"
    have inv1: "invK k ?s1" using inv by (auto intro: invK_fields)
    have ne1: "\<not> modeGeError (mode ?s1)" using ne by simp
    from run Some False have
      "(case (if mode ?s1 = IN_MEMORY_MODE \<and> passedThreshold cfg ?s1
              then switchToInFileMode cfg ?s1
              else if mode ?s1 = IN_FILE_MODE then
                (case inFileMode ?s1 of
                   None \<Rightarrow> None
                 | Some ifm \<Rightarrow>
                     if writerState ifm = WS_INACTIVE \<and> autoStartMover cfg
                     then moveNextBufferToFile ?s1 else Some ?s1)
              else Some ?s1) of
          None \<Rightarrow> None
        | Some s2 \<Rightarrow>
            (if readerState s2 = RS_INACTIVE then
               (if ch_acceptingInput ops (chan s2) then readNextWithoutRefGuard ops cfg s2
                else Some (readNextWhenChannelIdle s2))
             else Some s2)) = Some s'"
      unfolding feedWithoutRefGuard_def Let_def by simp
    then obtain s2 where
      mid: "(if mode ?s1 = IN_MEMORY_MODE \<and> passedThreshold cfg ?s1
              then switchToInFileMode cfg ?s1
              else if mode ?s1 = IN_FILE_MODE then
                (case inFileMode ?s1 of
                   None \<Rightarrow> None
                 | Some ifm \<Rightarrow>
                     if writerState ifm = WS_INACTIVE \<and> autoStartMover cfg
                     then moveNextBufferToFile ?s1 else Some ?s1)
              else Some ?s1) = Some s2"
      and fin: "(if readerState s2 = RS_INACTIVE then
                  (if ch_acceptingInput ops (chan s2) then readNextWithoutRefGuard ops cfg s2
                   else Some (readNextWhenChannelIdle s2))
                else Some s2) = Some s'"
      by (blast dest: option_case_Some)
    from mid inv1 have inv2: "invK k s2"
      by (auto simp del: pushBuffer_fields split: if_splits option.splits
          intro: switchToInFileMode_invK moveNextBufferToFile_invK)
    from mid ne1 have ne2: "\<not> modeGeError (mode s2)"
      by (auto simp del: pushBuffer_fields split: if_splits option.splits
          dest!: switchToInFileMode_Some moveNextBufferToFile_Some)
    from fin inv2 ne2 show ?thesis
      by (auto split: if_splits intro: readNextWithoutRefGuard_invK invK_not_error)
  qed
qed

lemma terminateReader_invK:
  "invK k s \<Longrightarrow> invK k (terminateReaderBecauseOfEOF ops s)"
  by (auto simp: invK_def modeInvariants_def errcodeInvariant_def)

lemma onChannelConsumed_invK:
  "invK k s \<Longrightarrow> onChannelConsumed ops cfg s = Some s' \<Longrightarrow> invK k s'"
  by (auto simp: onChannelConsumed_def channelHasBecomeIdle_def readNext_def
      channelEndedWhileWaitingForItToBecomeIdle_def feedErrorWhenChannelIdleOrEnded_def
      split: if_splits
      intro: readNextWithoutRefGuard_invK terminateReader_invK invK_fields)

lemma consumed_invK:
  "invK k s \<Longrightarrow> consumed ops cfg n eof s = Some s' \<Longrightarrow> invK k s'"
  unfolding consumed_def
  by (erule onChannelConsumed_invK[rotated]) (auto intro: invK_fields)

lemma deinitialize_invK:
  "deinitialize ops s = Some s' \<Longrightarrow> invK k s'"
  by (auto simp: deinitialize_def Let_def clearBuffers_def invK_def modeInvariants_def
      errcodeInvariant_def split: option.splits)

lemma reinitialize_invK:
  "invK k s \<Longrightarrow> reinitialize ops s = Some s' \<Longrightarrow> invK k s'"
  by (auto simp: reinitialize_def intro: invK_fields)

lemma bufferFileCreated_invK:
  assumes inv: "invK k s" and en: "k \<longrightarrow> result = -1 \<longrightarrow> errorno \<noteq> 0"
    and run: "bufferFileCreated ops cfg result errorno s = Some s'"
  shows "invK k s'"
proof -
  from run obtain ifm where ifm: "inFileMode s = Some ifm"
    by (auto simp: bufferFileCreated_def split: option.splits)
  have upd: "invK k (s\<lparr>inFileMode := Some x\<rparr>)" for x
    using inv ifm by (auto intro: invK_update_inFileMode)
  from run ifm consider
    (ok) x where "moveNextBufferToFile (s\<lparr>inFileMode := Some x\<rparr>) = Some s'"
    | (retry) x where "createBufferFile cfg (s\<lparr>inFileMode := Some x\<rparr>) = Some s'"
    | (err) x where "result = -1" "setError ops errorno (s\<lparr>inFileMode := Some x\<rparr>) = Some s'"
    by (auto simp: bufferFileCreated_def Let_def split: if_splits)
  then show ?thesis
  proof cases
    case ok
    then show ?thesis using upd by (blast intro: moveNextBufferToFile_invK)
  next
    case retry
    then show ?thesis using upd by (blast intro: createBufferFile_invK)
  next
    case err
    then show ?thesis using upd en by (blast intro: setError_invK)
  qed
qed

lemma bufferWrittenToFile_invK:
  assumes inv: "invK k s" and en: "k \<longrightarrow> result = -1 \<longrightarrow> errorno \<noteq> 0"
    and run: "bufferWrittenToFile ops mc result errorno s = Some s'"
  shows "invK k s'"
proof -
  from run obtain ifm where ifm: "inFileMode s = Some ifm"
    by (auto simp: bufferWrittenToFile_def split: option.splits)
  have upd: "invK k (s\<lparr>inFileMode := Some x\<rparr>)" for x
    using inv ifm by (auto intro: invK_update_inFileMode)
  have pop: "invK k (popBuffer ops (s\<lparr>inFileMode := Some x\<rparr>))" for x
    using upd[of x] by (rule invK_fields[rotated 4]) simp_all
  have pop2: "invK k ((popBuffer ops (s\<lparr>inFileMode := Some x\<rparr>))\<lparr>inFileMode := Some y\<rparr>)" for x y
    using pop[of x] by (rule invK_update_inFileMode) simp
  from run ifm consider
    (stop) x where "s' = popBuffer ops (s\<lparr>inFileMode := Some x\<rparr>)"
    | (continue) x y where
        "moveNextBufferToFile ((popBuffer ops (s\<lparr>inFileMode := Some x\<rparr>))\<lparr>inFileMode := Some y\<rparr>)
           = Some s'"
    | (partial) x where "s' = s\<lparr>inFileMode := Some x\<rparr>"
    | (err) x where "result = -1" "setError ops errorno (s\<lparr>inFileMode := Some x\<rparr>) = Some s'"
    by (auto simp: bufferWrittenToFile_def Let_def split: if_splits)
  then show ?thesis
  proof cases
    case stop
    then show ?thesis using pop by simp
  next
    case continue
    then show ?thesis using pop2 by (blast intro: moveNextBufferToFile_invK)
  next
    case partial
    then show ?thesis using upd by simp
  next
    case err
    then show ?thesis using upd en by (blast intro: setError_invK)
  qed
qed

lemma invK_Channel_feedWithoutRefGuard [simp]:
  "invK k (Channel_feedWithoutRefGuard ops b t) = invK k t"
  by (simp add: Channel_feedWithoutRefGuard_def)

lemma invK_readerState_update:
  "\<not> modeGeError (mode s) \<Longrightarrow> invK k (s\<lparr>readerState := y\<rparr>) = invK k s"
  by (simp add: invK_def modeInvariants_def errcodeInvariant_def)

lemma invK_readNextWhenChannelIdle:
  "\<not> modeGeError (mode s) \<Longrightarrow> invK k (readNextWhenChannelIdle s) = invK k s"
  by (simp add: invK_def modeInvariants_def errcodeInvariant_def)

lemma nextChunkDoneReading_invK:
  assumes inv: "invK k s" and en: "k \<longrightarrow> result = -1 \<longrightarrow> errorno \<noteq> 0"
    and run: "nextChunkDoneReading ops cfg rc result errorno s = Some s'"
  shows "invK k s'"
proof -
  from run obtain ifm where ifm: "inFileMode s = Some ifm"
    by (auto simp: nextChunkDoneReading_def split: option.splits)
  from inv ifm have m: "mode s = IN_FILE_MODE" by (rule invK_IN_FILE)
  have upd: "invK k (s\<lparr>inFileMode := Some x, readerState := y\<rparr>)" for x y
    using inv ifm m by (auto simp: invK_def modeInvariants_def errcodeInvariant_def)
  have upd1: "invK k (s\<lparr>inFileMode := Some x\<rparr>)" for x
    using inv ifm by (auto intro: invK_update_inFileMode)
  from run ifm consider
    (ret) x y b where "s' = Channel_feedWithoutRefGuard ops b (s\<lparr>inFileMode := Some x, readerState := y\<rparr>)"
    | (again) x y z b where
        "readNextWithoutRefGuard ops cfg
           ((Channel_feedWithoutRefGuard ops b (s\<lparr>inFileMode := Some x, readerState := y\<rparr>))
              \<lparr>readerState := z\<rparr>) = Some s'"
    | (wait) x y b where
        "s' = readNextWhenChannelIdle
           (Channel_feedWithoutRefGuard ops b (s\<lparr>inFileMode := Some x, readerState := y\<rparr>))"
    | (finish) x y b where
        "s' = terminateReaderBecauseOfEOF ops
           (Channel_feedWithoutRefGuard ops b (s\<lparr>inFileMode := Some x, readerState := y\<rparr>))"
    | (err) x where "result = -1" "setError ops errorno (s\<lparr>inFileMode := Some x\<rparr>) = Some s'"
    by (simp add: nextChunkDoneReading_def Let_def readNext_def split: if_splits) blast+
  then show ?thesis
  proof cases
    case ret
    then show ?thesis using upd by simp
  next
    case again
    have "invK k ((Channel_feedWithoutRefGuard ops b (s\<lparr>inFileMode := Some x, readerState := y\<rparr>))
              \<lparr>readerState := z\<rparr>)"
      using upd[where x=x and y=y] m by (simp add: invK_readerState_update)
    with again show ?thesis by (blast intro: readNextWithoutRefGuard_invK)
  next
    case wait
    then show ?thesis using upd m by (simp add: invK_readNextWhenChannelIdle)
  next
    case finish
    then show ?thesis using upd by (simp add: terminateReader_invK)
  next
    case err
    then show ?thesis using upd1 en by (blast intro: setError_invK)
  qed
qed

lemma bufferWrittenToFile_dispatch:
  assumes "e = BufferWrittenToFile r en" "inFileMode s = Some ifm" "step ops cfg e s = Some s'"
  shows "s' = s \<or> (\<exists>mc x. bufferWrittenToFile ops mc r en (s\<lparr>inFileMode := Some x\<rparr>) = Some s')"
proof (cases "writerRequest ifm")
  case None
  with assms show ?thesis by (simp add: bufferWrittenToFile_onEventLoopThread_def)
next
  case (Some ctx)
  show ?thesis
  proof (cases ctx)
    case (FileCreationContext d)
    with Some assms show ?thesis by (simp add: bufferWrittenToFile_onEventLoopThread_def)
  next
    case (MoveCtx mc)
    with Some assms have
      "bufferWrittenToFile ops mc r en
         (s\<lparr>inFileMode := Some (ifm\<lparr>fileData := eio_write_done mc r (fileData ifm)\<rparr>)\<rparr>) = Some s'"
      by (simp add: bufferWrittenToFile_onEventLoopThread_def)
    then show ?thesis by blast
  qed
qed

lemma step_invK:
  assumes inv: "invK k s" and en: "k \<longrightarrow> errorCodeNonzero e"
    and run: "step ops cfg e s = Some s'"
  shows "invK k s'"
proof (cases e)
  case (Feed b)
  with inv run show ?thesis by (auto simp: feed_def intro: feedWithoutRefGuard_invK)
next
  case (FeedError x)
  with inv en run show ?thesis by (auto simp: feedError_def intro: setError_invK)
next
  case Reinitialize
  with inv run show ?thesis by (auto intro: reinitialize_invK)
next
  case Deinitialize
  with run show ?thesis by (auto intro: deinitialize_invK)
next
  case (Consumed n eof)
  with inv run show ?thesis by (auto intro: consumed_invK)
next
  case BufferFileDoneDelaying
  with inv run show ?thesis
    by (auto simp: bufferFileDoneDelaying_onEventLoopThread_def bufferFileDoneDelaying_def
        split: option.splits IOContext.splits bool.splits if_splits
        intro: invK_update_inFileMode)
next
  case (BufferFileCreated r en')
  with inv en run show ?thesis
    by (auto simp: bufferFileCreated_onEventLoopThread_def
        split: option.splits IOContext.splits bool.splits if_splits
        intro: bufferFileCreated_invK)
next
  case (BufferWrittenToFile r en')
  show ?thesis
  proof (cases "inFileMode s")
    case None
    with BufferWrittenToFile inv run show ?thesis
      by (simp add: bufferWrittenToFile_onEventLoopThread_def)
  next
    case (Some ifm)
    have upd: "invK k (s\<lparr>inFileMode := Some x\<rparr>)" for x
      using inv Some by (auto intro: invK_update_inFileMode)
    from BufferWrittenToFile Some run have
      "s' = s \<or> (\<exists>mc x. bufferWrittenToFile ops mc r en' (s\<lparr>inFileMode := Some x\<rparr>) = Some s')"
      by (rule bufferWrittenToFile_dispatch)
    then consider "s' = s"
      | mc x where "bufferWrittenToFile ops mc r en' (s\<lparr>inFileMode := Some x\<rparr>) = Some s'"
      by blast
    then show ?thesis
    proof cases
      case 1
      with inv show ?thesis by simp
    next
      case 2
      with upd en BufferWrittenToFile show ?thesis
        by (auto intro: bufferWrittenToFile_invK)
    qed
  qed
next
  case (NextChunkDoneReading r en')
  with inv en run show ?thesis
    by (auto simp: nextChunkDoneReading_onEventLoopThread_def
        split: option.splits
        intro: nextChunkDoneReading_invK)
qed

lemma run_invK:
  "invK k s \<Longrightarrow> (k \<longrightarrow> (\<forall>e \<in> set es. errorCodeNonzero e)) \<Longrightarrow> run ops cfg es s = Some s'
   \<Longrightarrow> invK k s'"
proof (induction es arbitrary: s)
  case Nil
  then show ?case by simp
next
  case (Cons e es)
  from Cons.prems(3) obtain s1 where s1: "step ops cfg e s = Some s1"
    and rest: "run ops cfg es s1 = Some s'"
    by (auto split: option.splits)
  from Cons.prems(1,2) s1 have "invK k s1" by (auto intro: step_invK)
  with Cons.IH[OF _ _ rest] Cons.prems(2) show ?case by simp
qed

lemma invK_initial: "invK k (FileBufferedChannel w)"
  by (simp add: invK_def modeInvariants_def errcodeInvariant_def FileBufferedChannel_def)

subsection \<open>The global invariants and the writer state\<close>

lemma globalInvariants_invK: "globalInvariants s = invK True s"
  by (cases "mode s") (auto simp: globalInvariants_def invK_def modeInvariants_def errcodeInvariant_def)

lemmas eval_defs =
  feed_def feedWithoutRefGuard_def feedError_def setError_def ended_def hasBuffers_def
  peekLastBuffer_def peekBuffer_def pushBuffer_def popBuffer_def passedThreshold_def
  switchToInFileMode_def switchToInMemoryMode_def createBufferFile_def newInFileMode_def
  moveNextBufferToFile_def readNextPass_def findBufferForReadProcessing_def
  afterFeeding_def afterFeedingEOF_def Channel_feedWithoutRefGuard_def
  callDataFlushedCallback_def callBuffersFlushedCallback_def clearBuffers_def
  terminateReaderBecauseOfEOF_def readNextWhenChannelIdle_def readNextChunkFromFile_def
  cancelReader_def cancelWriter_def IOContext_cancel_def FileBufferedChannel_def newChannel_def Channel_ops_def
  Channel_feed_def Channel_feedError_def Channel_consumed_def sampleConfig_def
  bufferFileCreated_onEventLoopThread_def bufferFileCreated_def
  bufferWrittenToFile_onEventLoopThread_def bufferWrittenToFile_def eio_write_done_def
  nextChunkDoneReading_onEventLoopThread_def nextChunkDoneReading_def
  bufferFileDoneDelaying_onEventLoopThread_def bufferFileDoneDelaying_def
  consumed_def onChannelConsumed_def channelHasBecomeIdle_def readNext_def
  channelEndedWhileWaitingForItToBecomeIdle_def feedErrorWhenChannelIdleOrEnded_def
  deinitialize_def reinitialize_def pread_def pwrite_def Let_def word_le_nat_alt
  readNextWithoutRefGuard.simps

text \<open>
  C5. \<^verbatim>\<open>feedError(errcode)\<close> hands its argument to \<^verbatim>\<open>setError\<close>, which stores it unchecked.
  \<^verbatim>\<open>feedError(0)\<close> on a new object returns in mode \<^verbatim>\<open>ERROR\<close> with \<^verbatim>\<open>errcode == 0\<close>, and with
  a consumer that is still busy in mode \<^verbatim>\<open>ERROR_WAITING\<close> with \<^verbatim>\<open>errcode == 0\<close>: the invariant
  \<^verbatim>\<open>(errcode == 0) == (mode < ERROR)\<close>, documented at the member \<^verbatim>\<open>errcode\<close> and asserted by
  \<^verbatim>\<open>verifyInvariants()\<close>, held before the call and is broken after it.
\<close>

theorem feedError_zero_breaks_errcode_invariant:
  "errcodeInvariant (FileBufferedChannel newChannel)
   \<and> feedError (Channel_ops True) 0 (FileBufferedChannel newChannel)
     = Some \<lparr> mode = ERROR, readerState = RS_TERMINATED, nbuffers = 0, errcode = 0,
         bytesBuffered = 0, firstBuffer = [], moreBuffers = [], inFileMode = None,
         chan = \<lparr> state = ERROR_ACKED, generation = 0, received = [Failure 0],
           buffersFlushedCalls = 0, dataFlushedCalls = 0 \<rparr>,
         canceledContexts = [] \<rparr>
   \<and> \<not> errcodeInvariant \<lparr> mode = ERROR, readerState = RS_TERMINATED, nbuffers = 0,
         errcode = 0, bytesBuffered = 0, firstBuffer = [], moreBuffers = [], inFileMode = None,
         chan = \<lparr> state = ERROR_ACKED, generation = 0, received = [Failure 0],
           buffersFlushedCalls = 0, dataFlushedCalls = 0 \<rparr>,
         canceledContexts = [] \<rparr>
   \<and> run (Channel_ops False) (sampleConfig 16 True) [Feed ''x'', FeedError 0]
       (FileBufferedChannel newChannel)
     = Some \<lparr> mode = ERROR_WAITING, readerState = RS_TERMINATED, nbuffers = 0, errcode = 0,
         bytesBuffered = 0, firstBuffer = [], moreBuffers = [], inFileMode = None,
         chan = \<lparr> state = CALLING, generation = 0, received = [Data ''x''],
           buffersFlushedCalls = 1, dataFlushedCalls = 0 \<rparr>,
         canceledContexts = [] \<rparr>
   \<and> \<not> errcodeInvariant \<lparr> mode = ERROR_WAITING, readerState = RS_TERMINATED, nbuffers = 0,
         errcode = 0, bytesBuffered = 0, firstBuffer = [], moreBuffers = [], inFileMode = None,
         chan = \<lparr> state = CALLING, generation = 0, received = [Data ''x''],
           buffersFlushedCalls = 1, dataFlushedCalls = 0 \<rparr>,
         canceledContexts = [] \<rparr>"
  by (simp add: eval_defs errcodeInvariant_def)

text \<open>
  The unchecked error code is the only way in which an entry point that returns breaks the
  three global invariants (\<^verbatim>\<open>errcode == 0\<close> exactly in the modes \<^verbatim>\<open>IN_MEMORY_MODE\<close> and
  \<^verbatim>\<open>IN_FILE_MODE\<close>; \<^verbatim>\<open>inFileMode\<close> present exactly in mode \<^verbatim>\<open>IN_FILE_MODE\<close>; in the modes
  \<^verbatim>\<open>ERROR\<close> and \<^verbatim>\<open>ERROR_WAITING\<close> the reader is \<^verbatim>\<open>RS_TERMINATED\<close> and \<^verbatim>\<open>inFileMode\<close> is absent).
  They hold for a new object, and when they hold they hold again after every public entry
  point and every completion handler that returns, if no error code is 0: neither the
  argument of \<^verbatim>\<open>feedError\<close> nor the \<^verbatim>\<open>errorno\<close> of a failed libeio request.
\<close>

lemma global_invariants_kept:
  "globalInvariants (FileBufferedChannel w)
   \<and> (globalInvariants s0 \<longrightarrow> (\<forall>e \<in> set es. errorCodeNonzero e)
        \<longrightarrow> run ops cfg es s0 = Some s \<longrightarrow> globalInvariants s)"
  unfolding globalInvariants_invK
  by (auto intro: invK_initial run_invK)

lemma global_invariants_kept_example:
  "globalInvariants (FileBufferedChannel newChannel)
   \<and> errorCodeNonzero (Feed ''x'') \<and> errorCodeNonzero (FeedError 5)
   \<and> errorCodeNonzero (Consumed 1 False)
   \<and> run (Channel_ops False) (sampleConfig 1 True) [Feed ''x'', FeedError 5, Consumed 1 False]
        (FileBufferedChannel newChannel)
      = Some \<lparr> mode = ERROR_WAITING, readerState = RS_TERMINATED, nbuffers = 1, errcode = 5,
          bytesBuffered = 1, firstBuffer = ''x'', moreBuffers = [], inFileMode = None,
          chan = \<lparr> state = ERROR_ACKED, generation = 0, received = [Data ''x'', Failure 5],
            buffersFlushedCalls = 0, dataFlushedCalls = 0 \<rparr>,
         canceledContexts = [WriterRequest (FileCreationContext False)] \<rparr>
   \<and> globalInvariants \<lparr> mode = ERROR_WAITING, readerState = RS_TERMINATED, nbuffers = 1,
          errcode = 5, bytesBuffered = 1, firstBuffer = ''x'', moreBuffers = [],
          inFileMode = None,
          chan = \<lparr> state = ERROR_ACKED, generation = 0, received = [Data ''x'', Failure 5],
            buffersFlushedCalls = 0, dataFlushedCalls = 0 \<rparr>,
         canceledContexts = [WriterRequest (FileCreationContext False)] \<rparr>"
proof -
  have h0: "globalInvariants (FileBufferedChannel newChannel)"
    by (simp add: globalInvariants_def FileBufferedChannel_def)
  have h1: "\<forall>e \<in> set [Feed ''x'', FeedError 5, Consumed 1 False]. errorCodeNonzero e"
    by simp
  have h2: "run (Channel_ops False) (sampleConfig 1 True)
        [Feed ''x'', FeedError 5, Consumed 1 False] (FileBufferedChannel newChannel)
      = Some \<lparr> mode = ERROR_WAITING, readerState = RS_TERMINATED, nbuffers = 1, errcode = 5,
          bytesBuffered = 1, firstBuffer = ''x'', moreBuffers = [], inFileMode = None,
          chan = \<lparr> state = ERROR_ACKED, generation = 0, received = [Data ''x'', Failure 5],
            buffersFlushedCalls = 0, dataFlushedCalls = 0 \<rparr>,
         canceledContexts = [WriterRequest (FileCreationContext False)] \<rparr>"
    by (simp add: eval_defs)
  show ?thesis
    using h0 h1 h2 global_invariants_kept [THEN conjunct2, THEN mp, OF h0, THEN mp, OF h1, THEN mp, OF h2]
    by simp
qed

text \<open>
  C9. \<^verbatim>\<open>getWriterState()\<close> dereferences \<^verbatim>\<open>inFileMode\<close> unchecked. In every state that a
  sequence of entry points reaches from a new object, it has a writer state to return when
  the mode is \<^verbatim>\<open>IN_FILE_MODE\<close>, and in every other mode it has none.
\<close>

theorem getWriterState_needs_in_file_mode:
  assumes "run ops cfg es (FileBufferedChannel w) = Some s"
  shows "(mode s = IN_FILE_MODE \<longrightarrow> (\<exists>ws. getWriterState s = Some ws))
         \<and> (mode s \<noteq> IN_FILE_MODE \<longrightarrow> getWriterState s = None)"
proof -
  have "invK False s"
    by (rule run_invK[OF invK_initial _ assms]) simp
  then show ?thesis
    by (auto simp: invK_def modeInvariants_def getWriterState_def split: option.splits)
qed

theorem getWriterState_needs_in_file_mode_witness:
  "run (Channel_ops False) (sampleConfig 1 True) [Feed ''x''] (FileBufferedChannel newChannel)
     = Some \<lparr> mode = IN_FILE_MODE, readerState = RS_WAITING_FOR_CHANNEL_IDLE, nbuffers = 1,
         errcode = 0, bytesBuffered = 1, firstBuffer = ''x'', moreBuffers = [],
         inFileMode = Some \<lparr> fd = - 1, readRequest = None, writerState = WS_CREATING_FILE,
           writerRequest = Some (FileCreationContext False), readOffset = 1, written = - 1,
           fileData = [] \<rparr>,
         chan = \<lparr> state = CALLING, generation = 0, received = [Data ''x''],
           buffersFlushedCalls = 0, dataFlushedCalls = 0 \<rparr>,
         canceledContexts = [] \<rparr>
   \<and> getWriterState \<lparr> mode = IN_FILE_MODE, readerState = RS_WAITING_FOR_CHANNEL_IDLE,
         nbuffers = 1, errcode = 0, bytesBuffered = 1, firstBuffer = ''x'', moreBuffers = [],
         inFileMode = Some \<lparr> fd = - 1, readRequest = None, writerState = WS_CREATING_FILE,
           writerRequest = Some (FileCreationContext False), readOffset = 1, written = - 1,
           fileData = [] \<rparr>,
         chan = \<lparr> state = CALLING, generation = 0, received = [Data ''x''],
           buffersFlushedCalls = 0, dataFlushedCalls = 0 \<rparr>,
         canceledContexts = [] \<rparr> = Some WS_CREATING_FILE
   \<and> getWriterState (FileBufferedChannel newChannel) = None"
proof -
  have h: "run (Channel_ops False) (sampleConfig 1 True) [Feed ''x'']
      (FileBufferedChannel newChannel)
     = Some \<lparr> mode = IN_FILE_MODE, readerState = RS_WAITING_FOR_CHANNEL_IDLE, nbuffers = 1,
         errcode = 0, bytesBuffered = 1, firstBuffer = ''x'', moreBuffers = [],
         inFileMode = Some \<lparr> fd = - 1, readRequest = None, writerState = WS_CREATING_FILE,
           writerRequest = Some (FileCreationContext False), readOffset = 1, written = - 1,
           fileData = [] \<rparr>,
         chan = \<lparr> state = CALLING, generation = 0, received = [Data ''x''],
           buffersFlushedCalls = 0, dataFlushedCalls = 0 \<rparr>,
         canceledContexts = [] \<rparr>"
    by (simp add: eval_defs)
  have h0: "run (Channel_ops False) (sampleConfig 1 True) []
      (FileBufferedChannel newChannel) = Some (FileBufferedChannel newChannel)"
    by simp
  show ?thesis
    using h getWriterState_needs_in_file_mode [OF h] getWriterState_needs_in_file_mode [OF h0]
    by (simp add: getWriterState_def FileBufferedChannel_def)
qed

subsection \<open>The error modes are left only by deinitialize\<close>

lemma readNextWithoutRefGuard_error_mode:
  "modeGeError (mode s) \<Longrightarrow> readNextWithoutRefGuard ops cfg s = None"
  by (subst readNextWithoutRefGuard.simps) (cases "mode s"; simp add: readNextPass_def)

lemma feedWithoutRefGuard_error_mode:
  "modeGeError (mode s) \<Longrightarrow> feedWithoutRefGuard ops cfg b s = Some s' \<Longrightarrow> s' = s"
  by (cases "ended ops s")
     (auto simp: feedWithoutRefGuard_def dest: ended_False_not_error split: bool.splits)

lemma setError_error_mode:
  "modeGeError (mode s) \<Longrightarrow> setError ops e s = Some s' \<Longrightarrow> s' = s"
  by (simp add: setError_def)

lemma onChannelConsumed_error_mode:
  "modeGeError (mode s) \<Longrightarrow> onChannelConsumed ops cfg s = Some s' \<Longrightarrow> mode s' = mode s"
  by (auto simp: onChannelConsumed_def channelHasBecomeIdle_def readNext_def
      readNextWithoutRefGuard_error_mode channelEndedWhileWaitingForItToBecomeIdle_def
      feedErrorWhenChannelIdleOrEnded_def split: if_splits)

lemma bufferFileCreated_error_mode:
  assumes "modeGeError (mode s)" "bufferFileCreated ops cfg r en s = Some s'"
  shows "mode s' = mode s"
proof -
  from assms(2) consider
    (ok) x where "moveNextBufferToFile (s\<lparr>inFileMode := Some x\<rparr>) = Some s'"
    | (retry) x where "createBufferFile cfg (s\<lparr>inFileMode := Some x\<rparr>) = Some s'"
    | (err) x where "setError ops en (s\<lparr>inFileMode := Some x\<rparr>) = Some s'"
    by (auto simp: bufferFileCreated_def Let_def split: if_splits option.splits)
  then show ?thesis
  proof cases
    case ok
    then show ?thesis by (auto dest: moveNextBufferToFile_Some)
  next
    case retry
    then show ?thesis by (auto dest: createBufferFile_Some)
  next
    case err
    with assms(1) show ?thesis by (auto dest: setError_error_mode[rotated])
  qed
qed

lemma bufferWrittenToFile_error_mode:
  assumes "modeGeError (mode s)" "bufferWrittenToFile ops mc r en s = Some s'"
  shows "mode s' = mode s"
proof -
  from assms(2) consider
    (stop) x where "s' = popBuffer ops (s\<lparr>inFileMode := Some x\<rparr>)"
    | (continue) x y where
        "moveNextBufferToFile ((popBuffer ops (s\<lparr>inFileMode := Some x\<rparr>))\<lparr>inFileMode := Some y\<rparr>)
           = Some s'"
    | (partial) x where "s' = s\<lparr>inFileMode := Some x\<rparr>"
    | (err) x where "setError ops en (s\<lparr>inFileMode := Some x\<rparr>) = Some s'"
    by (auto simp: bufferWrittenToFile_def Let_def split: if_splits option.splits)
  then show ?thesis
  proof cases
    case stop
    then show ?thesis by simp
  next
    case continue
    then show ?thesis by (auto dest: moveNextBufferToFile_Some)
  next
    case partial
    then show ?thesis by simp
  next
    case err
    with assms(1) show ?thesis by (auto dest: setError_error_mode[rotated])
  qed
qed

lemma nextChunkDoneReading_error_mode:
  assumes "modeGeError (mode s)" "nextChunkDoneReading ops cfg rc r en s = Some s'"
  shows "mode s' = mode s"
proof -
  from assms consider
    (ret) x y b where
      "s' = Channel_feedWithoutRefGuard ops b (s\<lparr>inFileMode := Some x, readerState := y\<rparr>)"
    | (err) x where "setError ops en (s\<lparr>inFileMode := Some x\<rparr>) = Some s'"
    by (simp add: nextChunkDoneReading_def Let_def split: if_splits option.splits) blast+
  then show ?thesis
  proof cases
    case ret
    then show ?thesis by simp
  next
    case err
    with assms(1) show ?thesis by (auto dest: setError_error_mode[rotated])
  qed
qed

lemma step_error_mode:
  assumes m: "modeGeError (mode s)" and e: "e \<noteq> Deinitialize"
    and run: "step ops cfg e s = Some s'"
  shows "mode s' = mode s"
proof (cases e)
  case (Feed b)
  with m run show ?thesis by (auto simp: feed_def dest: feedWithoutRefGuard_error_mode)
next
  case (FeedError x)
  with m run show ?thesis by (auto simp: feedError_def dest: setError_error_mode)
next
  case Reinitialize
  with run show ?thesis by (auto simp: reinitialize_def)
next
  case Deinitialize
  with e show ?thesis by simp
next
  case (Consumed n eof)
  with m run show ?thesis
    by (auto simp: consumed_def dest: onChannelConsumed_error_mode[rotated])
next
  case BufferFileDoneDelaying
  with run show ?thesis
    by (auto simp: bufferFileDoneDelaying_onEventLoopThread_def bufferFileDoneDelaying_def
        split: option.splits IOContext.splits bool.splits if_splits)
next
  case (BufferFileCreated r en)
  with m run show ?thesis
    by (auto simp: bufferFileCreated_onEventLoopThread_def
        split: option.splits IOContext.splits bool.splits if_splits
        dest: bufferFileCreated_error_mode[rotated])
next
  case (BufferWrittenToFile r en)
  show ?thesis
  proof (cases "inFileMode s")
    case None
    with BufferWrittenToFile run show ?thesis
      by (simp add: bufferWrittenToFile_onEventLoopThread_def)
  next
    case (Some ifm)
    from bufferWrittenToFile_dispatch[OF BufferWrittenToFile Some run] m show ?thesis
      by (auto dest: bufferWrittenToFile_error_mode[rotated])
  qed
next
  case (NextChunkDoneReading r en)
  with m run show ?thesis
    by (auto simp: nextChunkDoneReading_onEventLoopThread_def
        split: option.splits
        dest: nextChunkDoneReading_error_mode[rotated])
qed

lemma run_error_mode:
  "modeGeError (mode s) \<Longrightarrow> Deinitialize \<notin> set es \<Longrightarrow> run ops cfg es s = Some s'
   \<Longrightarrow> mode s' = mode s"
proof (induction es arbitrary: s)
  case Nil
  then show ?case by simp
next
  case (Cons e es)
  from Cons.prems(3) obtain s1 where s1: "step ops cfg e s = Some s1"
    and rest: "run ops cfg es s1 = Some s'"
    by (auto split: option.splits)
  from Cons.prems(2) have "e \<noteq> Deinitialize" by auto
  from step_error_mode[OF Cons.prems(1) this s1] have m1: "mode s1 = mode s" .
  with Cons.prems(1) have "modeGeError (mode s1)" by simp
  from Cons.IH[OF this _ rest] Cons.prems(2) m1 show ?case by simp
qed

text \<open>
  C10. Once the mode is \<^verbatim>\<open>ERROR_WAITING\<close> it stays \<^verbatim>\<open>ERROR_WAITING\<close> through every sequence
  of entry points without \<^verbatim>\<open>deinitialize\<close>; in particular through the \<^verbatim>\<open>consumed\<close> event that
  delivers the deferred error to the underlying channel, which leaves everything but the
  underlying channel as it was.
\<close>

theorem error_waiting_never_becomes_error:
  assumes "mode s = ERROR_WAITING" and "Deinitialize \<notin> set es"
    and "run ops cfg es s = Some s'"
  shows "mode s' = ERROR_WAITING
         \<and> getMode (feedErrorWhenChannelIdleOrEnded ops s) = ERROR_WAITING"
  using assms run_error_mode[of s es ops cfg s']
  by (simp add: getMode_def feedErrorWhenChannelIdleOrEnded_def)

theorem error_waiting_never_becomes_error_witness:
  "mode \<lparr> mode = ERROR_WAITING, readerState = RS_TERMINATED, nbuffers = 1, errcode = 5,
       bytesBuffered = 1, firstBuffer = ''x'', moreBuffers = [], inFileMode = None,
       chan = \<lparr> state = CALLING, generation = 0, received = [Data ''x''],
         buffersFlushedCalls = 0, dataFlushedCalls = 0 \<rparr>,
         canceledContexts = [] \<rparr> = ERROR_WAITING
   \<and> Deinitialize \<notin> set [Consumed 1 False, Feed ''y'', FeedError 7]
   \<and> run (Channel_ops False) (sampleConfig 1 True) [Consumed 1 False, Feed ''y'', FeedError 7]
       \<lparr> mode = ERROR_WAITING, readerState = RS_TERMINATED, nbuffers = 1, errcode = 5,
         bytesBuffered = 1, firstBuffer = ''x'', moreBuffers = [], inFileMode = None,
         chan = \<lparr> state = CALLING, generation = 0, received = [Data ''x''],
           buffersFlushedCalls = 0, dataFlushedCalls = 0 \<rparr>,
         canceledContexts = [] \<rparr>
     = Some \<lparr> mode = ERROR_WAITING, readerState = RS_TERMINATED, nbuffers = 1, errcode = 5,
         bytesBuffered = 1, firstBuffer = ''x'', moreBuffers = [], inFileMode = None,
         chan = \<lparr> state = ERROR_ACKED, generation = 0, received = [Data ''x'', Failure 5],
           buffersFlushedCalls = 0, dataFlushedCalls = 0 \<rparr>,
         canceledContexts = [] \<rparr>"
proof -
  have h1: "mode \<lparr> mode = ERROR_WAITING, readerState = RS_TERMINATED, nbuffers = 1,
       errcode = 5, bytesBuffered = 1, firstBuffer = ''x'', moreBuffers = [],
       inFileMode = None,
       chan = \<lparr> state = CALLING, generation = 0, received = [Data ''x''],
         buffersFlushedCalls = 0, dataFlushedCalls = 0 \<rparr>,
         canceledContexts = [] \<rparr> = ERROR_WAITING"
    by simp
  have h2: "Deinitialize \<notin> set [Consumed 1 False, Feed ''y'', FeedError 7]"
    by simp
  have h3: "run (Channel_ops False) (sampleConfig 1 True)
       [Consumed 1 False, Feed ''y'', FeedError 7]
       \<lparr> mode = ERROR_WAITING, readerState = RS_TERMINATED, nbuffers = 1, errcode = 5,
         bytesBuffered = 1, firstBuffer = ''x'', moreBuffers = [], inFileMode = None,
         chan = \<lparr> state = CALLING, generation = 0, received = [Data ''x''],
           buffersFlushedCalls = 0, dataFlushedCalls = 0 \<rparr>,
         canceledContexts = [] \<rparr>
     = Some \<lparr> mode = ERROR_WAITING, readerState = RS_TERMINATED, nbuffers = 1, errcode = 5,
         bytesBuffered = 1, firstBuffer = ''x'', moreBuffers = [], inFileMode = None,
         chan = \<lparr> state = ERROR_ACKED, generation = 0, received = [Data ''x'', Failure 5],
           buffersFlushedCalls = 0, dataFlushedCalls = 0 \<rparr>,
         canceledContexts = [] \<rparr>"
    by (simp add: eval_defs)
  show ?thesis
    using h1 h2 h3 error_waiting_never_becomes_error [OF h1 h2 h3]
    by simp
qed

subsection \<open>The request pointers are there when they are dereferenced\<close>

lemma afterFeeding_readerState:
  "readerState (fst (afterFeeding ops g s)) = readerState s
   \<or> readerState (fst (afterFeeding ops g s)) = RS_WAITING_FOR_CHANNEL_IDLE
   \<or> readerState (fst (afterFeeding ops g s)) = RS_TERMINATED"
  by (simp add: afterFeeding_def)

lemma afterFeedingEOF_readerState:
  "readerState (afterFeedingEOF ops g s) = readerState s
   \<or> readerState (afterFeedingEOF ops g s) = RS_TERMINATED"
  by (simp add: afterFeedingEOF_def)

lemma requestInvariants_reader:
  "requestInvariants s \<Longrightarrow> inFileMode s' = inFileMode s
   \<Longrightarrow> readerState s' = readerState s \<or> readerState s' \<noteq> RS_READING_FROM_FILE
   \<Longrightarrow> requestInvariants s'"
  by (auto simp: requestInvariants_def)

lemma requestInvariants_no_file:
  "inFileMode s' = None \<Longrightarrow> readerState s' \<noteq> RS_READING_FROM_FILE \<Longrightarrow> requestInvariants s'"
  by (auto simp: requestInvariants_def)

lemma wellFormed_reader:
  "wellFormed s \<Longrightarrow> \<not> modeGeError (mode s) \<Longrightarrow> mode s' = mode s \<Longrightarrow> errcode s' = errcode s
   \<Longrightarrow> inFileMode s' = inFileMode s
   \<Longrightarrow> readerState s' = readerState s \<or> readerState s' \<noteq> RS_READING_FROM_FILE
   \<Longrightarrow> wellFormed s'"
  unfolding wellFormed_def
  by (auto intro: invK_not_error requestInvariants_reader)

lemma wellFormed_chan_update [simp]: "wellFormed (s\<lparr>chan := c\<rparr>) = wellFormed s"
  by (simp add: wellFormed_def requestInvariants_def)

lemma readNextPass_IN_FILE:
  assumes "mode s = IN_FILE_MODE" and "readNextPass ops cfg s = Some r"
  shows "\<exists>ifm. inFileMode s = Some ifm \<and>
    ((0 < written ifm
        \<and> r = (s\<lparr>readerState := RS_READING_FROM_FILE,
              inFileMode := Some (ifm\<lparr>readRequest :=
                Some \<lparr> rc_size = min (nat (written ifm)) (mbufPoolDataSize cfg),
                       rc_offset = readOffset ifm \<rparr>\<rparr>)\<rparr>, False))
     \<or> (written ifm \<le> 0 \<and> \<not> snd (findBufferForReadProcessing s ifm) \<and> autoTruncateFile cfg
        \<and> (\<exists>s2. switchToInMemoryMode (s\<lparr>readerState := RS_INACTIVE\<rparr>) = Some s2
                \<and> r = (callDataFlushedCallback ops s2, False)))
     \<or> (written ifm \<le> 0 \<and> \<not> snd (findBufferForReadProcessing s ifm) \<and> \<not> autoTruncateFile cfg
        \<and> r = (callDataFlushedCallback ops (s\<lparr>readerState := RS_INACTIVE\<rparr>), False))
     \<or> (written ifm \<le> 0 \<and> snd (findBufferForReadProcessing s ifm)
        \<and> fst (findBufferForReadProcessing s ifm) = []
        \<and> r = (afterFeedingEOF ops (ch_generation ops (chan s))
              (Channel_feedWithoutRefGuard ops (fst (findBufferForReadProcessing s ifm))
                 (s\<lparr>readerState := RS_FEEDING_EOF\<rparr>)), False))
     \<or> (written ifm \<le> 0 \<and> snd (findBufferForReadProcessing s ifm)
        \<and> fst (findBufferForReadProcessing s ifm) \<noteq> []
        \<and> r = afterFeeding ops (ch_generation ops (chan s))
              (Channel_feedWithoutRefGuard ops (fst (findBufferForReadProcessing s ifm))
                 (s\<lparr>inFileMode := Some (ifm\<lparr>
                        readOffset := readOffset ifm
                          + int (length (fst (findBufferForReadProcessing s ifm))),
                        written := written ifm
                          - int (length (fst (findBufferForReadProcessing s ifm)))\<rparr>),
                     readerState := RS_FEEDING\<rparr>))))"
proof (cases "inFileMode s")
  case None
  with assms show ?thesis by (simp add: readNextPass_def)
next
  case (Some ifm)
  with assms show ?thesis
    by (simp add: readNextPass_def Let_def readNextChunkFromFile_def
        split: if_splits option.splits)
qed

lemma readNextPass_wellFormed:
  assumes wf: "wellFormed s" and run: "readNextPass ops cfg s = Some r"
  shows "wellFormed (fst r)"
proof -
  from wf have inv: "invK False s" and req: "requestInvariants s"
    by (simp_all add: wellFormed_def)
  from inv run have inv': "invK False (fst r)" by (rule readNextPass_invK)
  have "requestInvariants (fst r)"
  proof (cases "mode s")
    case IN_MEMORY_MODE
    with inv have none: "inFileMode s = None" by (auto simp: invK_def modeInvariants_def)
    from run IN_MEMORY_MODE have "inFileMode (fst r) = None"
      by (auto simp: readNextPass_def Let_def none afterFeeding_fields afterFeedingEOF_fields
          split: if_splits)
    moreover from req none have "readerState s \<noteq> RS_READING_FROM_FILE"
      by (auto simp: requestInvariants_def)
    with run IN_MEMORY_MODE have "readerState (fst r) \<noteq> RS_READING_FROM_FILE"
      using afterFeeding_readerState[of ops "ch_generation ops (chan s)"
          "Channel_feedWithoutRefGuard ops (peekBuffer s) ((popBuffer ops s)\<lparr>readerState := RS_FEEDING\<rparr>)"]
        afterFeedingEOF_readerState[of ops "ch_generation ops (chan s)"
          "Channel_feedWithoutRefGuard ops (peekBuffer s) (s\<lparr>readerState := RS_FEEDING_EOF\<rparr>)"]
      by (auto simp: readNextPass_def Let_def split: if_splits)
    ultimately show ?thesis by (rule requestInvariants_no_file)
  next
    case IN_FILE_MODE
    let ?b = "\<lambda>ifm. fst (findBufferForReadProcessing s ifm)"
    let ?g = "ch_generation ops (chan s)"
    from readNextPass_IN_FILE[OF IN_FILE_MODE run] obtain ifm where
      ifm: "inFileMode s = Some ifm" and
      cs: "fst r = s\<lparr>readerState := RS_READING_FROM_FILE,
            inFileMode := Some (ifm\<lparr>readRequest :=
              Some \<lparr> rc_size = min (nat (written ifm)) (mbufPoolDataSize cfg),
                     rc_offset = readOffset ifm \<rparr>\<rparr>)\<rparr>
         \<or> (inFileMode (fst r) = None \<and> readerState (fst r) = RS_INACTIVE)
         \<or> fst r = callDataFlushedCallback ops (s\<lparr>readerState := RS_INACTIVE\<rparr>)
         \<or> fst r = afterFeedingEOF ops ?g
            (Channel_feedWithoutRefGuard ops (?b ifm) (s\<lparr>readerState := RS_FEEDING_EOF\<rparr>))
         \<or> fst r = fst (afterFeeding ops ?g
            (Channel_feedWithoutRefGuard ops (?b ifm)
               (s\<lparr>inFileMode := Some (ifm\<lparr>
                      readOffset := readOffset ifm + int (length (?b ifm)),
                      written := written ifm - int (length (?b ifm))\<rparr>),
                   readerState := RS_FEEDING\<rparr>)))"
      by (auto dest!: switchToInMemoryMode_Some)
    from req ifm have w: "writerState ifm = WS_CREATING_FILE \<or> writerState ifm = WS_MOVING
        \<longrightarrow> writerRequest ifm \<noteq> None"
      by (simp add: requestInvariants_def)
    from cs w ifm show ?thesis
      using afterFeedingEOF_readerState[of ops ?g
            "Channel_feedWithoutRefGuard ops (?b ifm) (s\<lparr>readerState := RS_FEEDING_EOF\<rparr>)"]
        afterFeeding_readerState[of ops ?g
            "Channel_feedWithoutRefGuard ops (?b ifm)
               (s\<lparr>inFileMode := Some (ifm\<lparr>
                      readOffset := readOffset ifm + int (length (?b ifm)),
                      written := written ifm - int (length (?b ifm))\<rparr>),
                   readerState := RS_FEEDING\<rparr>)"]
      by (elim disjE conjE)
         (auto simp: requestInvariants_def afterFeeding_fields afterFeedingEOF_fields
           callDataFlushedCallback_def)
  next
    case ERROR
    with run show ?thesis by (simp add: readNextPass_def)
  next
    case ERROR_WAITING
    with run show ?thesis by (simp add: readNextPass_def)
  qed
  with inv' show ?thesis by (simp add: wellFormed_def)
qed

lemma readNextWithoutRefGuard_wellFormed:
  "wellFormed s \<Longrightarrow> readNextWithoutRefGuard ops cfg s = Some s' \<Longrightarrow> wellFormed s'"
  by (erule readNextWithoutRefGuard_rule[where Q = wellFormed and R = wellFormed, rotated 2])
     (auto dest: readNextPass_wellFormed)

lemma moveNextBufferToFile_requestInvariants:
  assumes "moveNextBufferToFile s = Some s'"
    and "readerState s = RS_READING_FROM_FILE
         \<longrightarrow> (case inFileMode s of None \<Rightarrow> False | Some ifm \<Rightarrow> readRequest ifm \<noteq> None)"
  shows "requestInvariants s'"
  using assms
  by (auto simp: moveNextBufferToFile_def requestInvariants_def split: option.splits if_splits)

lemma createBufferFile_requestInvariants:
  assumes "createBufferFile cfg s = Some s'"
    and "readerState s = RS_READING_FROM_FILE
         \<longrightarrow> (case inFileMode s of None \<Rightarrow> False | Some ifm \<Rightarrow> readRequest ifm \<noteq> None)"
  shows "requestInvariants s'"
  using assms
  by (auto simp: createBufferFile_def requestInvariants_def split: option.splits if_splits)

lemma setError_requestInvariants:
  "setError ops e s = Some s' \<Longrightarrow> \<not> modeGeError (mode s) \<Longrightarrow> requestInvariants s'"
  by (drule setError_Some) (auto simp: requestInvariants_def)

lemma wellFormedI: "invK False s \<Longrightarrow> requestInvariants s \<Longrightarrow> wellFormed s"
  by (simp add: wellFormed_def)

lemma wellFormed_invK: "wellFormed s \<Longrightarrow> invK False s"
  by (simp add: wellFormed_def)

lemma wellFormed_IN_MEMORY_reader:
  "wellFormed s \<Longrightarrow> mode s = IN_MEMORY_MODE \<Longrightarrow> readerState s \<noteq> RS_READING_FROM_FILE"
  by (auto simp: wellFormed_def requestInvariants_def invK_def modeInvariants_def
      split: option.splits)

lemma feedWithoutRefGuard_wellFormed:
  assumes wf: "wellFormed s" and run: "feedWithoutRefGuard ops cfg b s = Some s'"
  shows "wellFormed s'"
proof (cases "ended ops s")
  case None
  with run show ?thesis by (simp add: feedWithoutRefGuard_def)
next
  case (Some e)
  show ?thesis
  proof (cases e)
    case True
    with Some run wf show ?thesis by (simp add: feedWithoutRefGuard_def)
  next
    case False
    with Some have ne: "\<not> modeGeError (mode s)" by (simp add: ended_False_not_error)
    let ?s1 = "pushBuffer b s"
    have wf1: "wellFormed ?s1" by (rule wellFormed_reader[OF wf ne]) simp_all
    have ne1: "\<not> modeGeError (mode ?s1)" using ne by simp
    from run Some False have
      "(case (if mode ?s1 = IN_MEMORY_MODE \<and> passedThreshold cfg ?s1
              then switchToInFileMode cfg ?s1
              else if mode ?s1 = IN_FILE_MODE then
                (case inFileMode ?s1 of
                   None \<Rightarrow> None
                 | Some ifm \<Rightarrow>
                     if writerState ifm = WS_INACTIVE \<and> autoStartMover cfg
                     then moveNextBufferToFile ?s1 else Some ?s1)
              else Some ?s1) of
          None \<Rightarrow> None
        | Some s2 \<Rightarrow>
            (if readerState s2 = RS_INACTIVE then
               (if ch_acceptingInput ops (chan s2) then readNextWithoutRefGuard ops cfg s2
                else Some (readNextWhenChannelIdle s2))
             else Some s2)) = Some s'"
      unfolding feedWithoutRefGuard_def Let_def by simp
    then obtain s2 where
      mid: "(if mode ?s1 = IN_MEMORY_MODE \<and> passedThreshold cfg ?s1
              then switchToInFileMode cfg ?s1
              else if mode ?s1 = IN_FILE_MODE then
                (case inFileMode ?s1 of
                   None \<Rightarrow> None
                 | Some ifm \<Rightarrow>
                     if writerState ifm = WS_INACTIVE \<and> autoStartMover cfg
                     then moveNextBufferToFile ?s1 else Some ?s1)
              else Some ?s1) = Some s2"
      and fin: "(if readerState s2 = RS_INACTIVE then
                  (if ch_acceptingInput ops (chan s2) then readNextWithoutRefGuard ops cfg s2
                   else Some (readNextWhenChannelIdle s2))
                else Some s2) = Some s'"
      by (blast dest: option_case_Some)
    have inv2: "invK False s2"
      using mid wf1[THEN wellFormed_invK]
      by (auto simp del: pushBuffer_fields split: if_splits option.splits
          intro: switchToInFileMode_invK moveNextBufferToFile_invK)
    have req2: "requestInvariants s2"
    proof (cases "mode ?s1 = IN_MEMORY_MODE \<and> passedThreshold cfg ?s1")
      case True
      with mid have sw: "switchToInFileMode cfg ?s1 = Some s2" by simp
      from True have "mode ?s1 = IN_MEMORY_MODE" by (rule conjunct1)
      from wellFormed_IN_MEMORY_reader[OF wf1 this]
      have "readerState ?s1 \<noteq> RS_READING_FROM_FILE" .
      then have nr: "readerState s \<noteq> RS_READING_FROM_FILE" by simp
      from sw have "createBufferFile cfg
          (?s1\<lparr>mode := IN_FILE_MODE, inFileMode := Some newInFileMode\<rparr>) = Some s2"
        by (simp only: switchToInFileMode_def)
      then show ?thesis
        by (rule createBufferFile_requestInvariants) (simp add: nr)
    next
      case False
      with mid have "s2 = ?s1 \<or> moveNextBufferToFile ?s1 = Some s2"
        by (simp del: pushBuffer_fields split: if_splits option.splits)
      then consider "s2 = ?s1" | "moveNextBufferToFile ?s1 = Some s2"
        by blast
      then show ?thesis
      proof cases
        case 1
        with wf1 show ?thesis by (simp add: wellFormed_def)
      next
        case 2
        from wf1 have "readerState ?s1 = RS_READING_FROM_FILE
          \<longrightarrow> (case inFileMode ?s1 of None \<Rightarrow> False | Some ifm \<Rightarrow> readRequest ifm \<noteq> None)"
          unfolding wellFormed_def requestInvariants_def by blast
        with 2 show ?thesis by (rule moveNextBufferToFile_requestInvariants)
      qed
    qed
    from inv2 req2 have wf2: "wellFormed s2" by (rule wellFormedI)
    from mid ne1 have ne2: "\<not> modeGeError (mode s2)"
      by (auto simp del: pushBuffer_fields split: if_splits option.splits
          dest!: switchToInFileMode_Some moveNextBufferToFile_Some)
    from fin have "s' = s2 \<or> s' = readNextWhenChannelIdle s2
      \<or> readNextWithoutRefGuard ops cfg s2 = Some s'"
      by (simp split: if_splits)
    then consider "s' = s2" | "s' = readNextWhenChannelIdle s2"
      | "readNextWithoutRefGuard ops cfg s2 = Some s'"
      by blast
    then show ?thesis
    proof cases
      case 1
      with wf2 show ?thesis by simp
    next
      case 2
      show ?thesis unfolding 2 by (rule wellFormed_reader[OF wf2 ne2]) simp_all
    next
      case 3
      with wf2 show ?thesis by (rule readNextWithoutRefGuard_wellFormed)
    qed
  qed
qed

lemma terminateReader_wellFormed:
  "wellFormed s \<Longrightarrow> wellFormed (terminateReaderBecauseOfEOF ops s)"
  by (auto simp: wellFormed_def requestInvariants_def terminateReader_invK)

lemma onChannelConsumed_wellFormed:
  "wellFormed s \<Longrightarrow> onChannelConsumed ops cfg s = Some s' \<Longrightarrow> wellFormed s'"
  by (auto simp: onChannelConsumed_def channelHasBecomeIdle_def readNext_def
      channelEndedWhileWaitingForItToBecomeIdle_def feedErrorWhenChannelIdleOrEnded_def
      split: if_splits
      intro: readNextWithoutRefGuard_wellFormed terminateReader_wellFormed)

lemma consumed_wellFormed:
  "wellFormed s \<Longrightarrow> consumed ops cfg n eof s = Some s' \<Longrightarrow> wellFormed s'"
  unfolding consumed_def
  by (erule onChannelConsumed_wellFormed[rotated]) simp

lemma deinitialize_wellFormed:
  "deinitialize ops s = Some s' \<Longrightarrow> wellFormed s'"
  by (rule wellFormedI, erule deinitialize_invK)
     (auto simp: deinitialize_def Let_def clearBuffers_def requestInvariants_def
       split: option.splits)

lemma wellFormed_update_inFileMode:
  assumes "wellFormed s" "inFileMode s = Some ifm0"
    and "readerState s = RS_READING_FROM_FILE \<longrightarrow> readRequest ifm \<noteq> None"
    and "writerState ifm = WS_CREATING_FILE \<or> writerState ifm = WS_MOVING
         \<longrightarrow> writerRequest ifm \<noteq> None"
  shows "wellFormed (s\<lparr>inFileMode := Some ifm\<rparr>)"
  using assms
  by (auto simp: wellFormed_def requestInvariants_def intro: invK_update_inFileMode)

subsection \<open>The cases of the completion handlers\<close>

lemma bufferFileCreated_cases:
  assumes "bufferFileCreated ops cfg r en s = Some s'" and "inFileMode s = Some ifm"
  shows "(r \<noteq> -1 \<and> moveNextBufferToFile
            (s\<lparr>inFileMode := Some (ifm\<lparr>writerRequest := None, fd := r, fileData := []\<rparr>)\<rparr>) = Some s')
    \<or> (r = -1 \<and> en = EEXIST \<and> createBufferFile cfg
            (s\<lparr>inFileMode := Some (ifm\<lparr>writerRequest := None, writerState := WS_INACTIVE\<rparr>)\<rparr>) = Some s')
    \<or> (r = -1 \<and> en \<noteq> EEXIST
        \<and> setError ops en (s\<lparr>inFileMode := Some (ifm\<lparr>writerRequest := None\<rparr>)\<rparr>) = Some s')"
  using assms by (simp add: bufferFileCreated_def Let_def split: if_splits)

lemma bufferWrittenToFile_cases:
  assumes "bufferWrittenToFile ops mc r en s = Some s'" and "inFileMode s = Some ifm"
  shows "(r \<noteq> -1 \<and> mc_written mc + nat r = length (mc_buffer mc)
        \<and> s' = popBuffer ops (s\<lparr>inFileMode :=
              Some (ifm\<lparr>written := written ifm + int (length (mc_buffer mc))\<rparr>)\<rparr>))
    \<or> (r \<noteq> -1 \<and> mc_written mc + nat r = length (mc_buffer mc)
        \<and> moveNextBufferToFile
            ((popBuffer ops (s\<lparr>inFileMode :=
                Some (ifm\<lparr>written := written ifm + int (length (mc_buffer mc))\<rparr>)\<rparr>))
              \<lparr>inFileMode := Some (ifm\<lparr>written := written ifm + int (length (mc_buffer mc)),
                                     writerRequest := None\<rparr>)\<rparr>) = Some s')
    \<or> (r \<noteq> -1 \<and> mc_written mc + nat r \<noteq> length (mc_buffer mc)
        \<and> s' = s\<lparr>inFileMode := Some (ifm\<lparr>writerRequest :=
              Some (MoveCtx (mc\<lparr>mc_written := mc_written mc + nat r,
                mc_reqData := drop (mc_written mc + nat r) (mc_buffer mc),
                mc_reqOffset := readOffset ifm + written ifm\<rparr>))\<rparr>)\<rparr>)
    \<or> (r = -1 \<and> setError ops en
            (s\<lparr>inFileMode := Some (ifm\<lparr>writerRequest := None, writerState := WS_TERMINATED\<rparr>)\<rparr>)
          = Some s')"
  using assms by (simp add: bufferWrittenToFile_def Let_def split: if_splits)

lemma nextChunkDoneReading_cases:
  assumes "nextChunkDoneReading ops cfg rc r en s = Some s'" and "inFileMode s = Some ifm"
  shows "(r = -1 \<and> setError ops en (s\<lparr>inFileMode := Some (ifm\<lparr>readRequest := None\<rparr>)\<rparr>) = Some s')
    \<or> (r \<noteq> -1 \<and> (\<exists>b s2. b = take (nat r) (pread (fileData ifm) (rc_offset rc) (rc_size rc))
          \<and> s2 = Channel_feedWithoutRefGuard ops b
                (s\<lparr>inFileMode := Some (ifm\<lparr>readRequest := None,
                      readOffset := readOffset ifm + int (length b),
                      written := written ifm - int (length b)\<rparr>),
                    readerState := RS_FEEDING\<rparr>)
          \<and> (s' = s2
             \<or> (\<not> modeGeError (mode s2)
                  \<and> readNextWithoutRefGuard ops cfg (s2\<lparr>readerState := RS_INACTIVE\<rparr>) = Some s')
             \<or> s' = readNextWhenChannelIdle s2
             \<or> s' = terminateReaderBecauseOfEOF ops s2)))"
  using assms
  by (simp add: nextChunkDoneReading_def Let_def readNext_def split: if_splits)

subsection \<open>Well-formed states\<close>

lemma wellFormed_parts:
  assumes "wellFormed s" "inFileMode s = Some ifm"
  shows "mode s = IN_FILE_MODE" "\<not> modeGeError (mode s)"
    "readerState s = RS_READING_FROM_FILE \<longrightarrow> readRequest ifm \<noteq> None"
    "writerState ifm = WS_CREATING_FILE \<or> writerState ifm = WS_MOVING
       \<longrightarrow> writerRequest ifm \<noteq> None"
  using assms
  by (auto simp: wellFormed_def requestInvariants_def invK_def modeInvariants_def)

lemma bufferFileCreated_wellFormed:
  assumes wf: "wellFormed s" and run: "bufferFileCreated ops cfg r en s = Some s'"
  shows "wellFormed s'"
proof (rule wellFormedI)
  from wf have "invK False s" by (rule wellFormed_invK)
  then show "invK False s'" using _ run by (rule bufferFileCreated_invK) simp
next
  from run obtain ifm where ifm: "inFileMode s = Some ifm"
    by (auto simp: bufferFileCreated_def split: option.splits)
  note p = wellFormed_parts[OF wf ifm]
  from bufferFileCreated_cases[OF run ifm] show "requestInvariants s'"
  proof (elim disjE conjE)
    assume "moveNextBufferToFile
        (s\<lparr>inFileMode := Some (ifm\<lparr>writerRequest := None, fd := r, fileData := []\<rparr>)\<rparr>) = Some s'"
    then show ?thesis
      by (rule moveNextBufferToFile_requestInvariants) (simp add: p)
  next
    assume "createBufferFile cfg
        (s\<lparr>inFileMode := Some (ifm\<lparr>writerRequest := None, writerState := WS_INACTIVE\<rparr>)\<rparr>) = Some s'"
    then show ?thesis
      by (rule createBufferFile_requestInvariants) (simp add: p)
  next
    assume "setError ops en (s\<lparr>inFileMode := Some (ifm\<lparr>writerRequest := None\<rparr>)\<rparr>) = Some s'"
    then show ?thesis
      by (rule setError_requestInvariants) (simp add: p)
  qed
qed

lemma bufferWrittenToFile_wellFormed:
  assumes wf: "wellFormed s" and run: "bufferWrittenToFile ops mc r en s = Some s'"
  shows "wellFormed s'"
proof (rule wellFormedI)
  from wf have "invK False s" by (rule wellFormed_invK)
  then show "invK False s'" using _ run by (rule bufferWrittenToFile_invK) simp
next
  from run obtain ifm where ifm: "inFileMode s = Some ifm"
    by (auto simp: bufferWrittenToFile_def split: option.splits)
  note p = wellFormed_parts[OF wf ifm]
  from bufferWrittenToFile_cases[OF run ifm] show "requestInvariants s'"
  proof (elim disjE conjE)
    assume "s' = popBuffer ops (s\<lparr>inFileMode :=
              Some (ifm\<lparr>written := written ifm + int (length (mc_buffer mc))\<rparr>)\<rparr>)"
    then show ?thesis using p by (simp add: requestInvariants_def)
  next
    assume "moveNextBufferToFile
            ((popBuffer ops (s\<lparr>inFileMode :=
                Some (ifm\<lparr>written := written ifm + int (length (mc_buffer mc))\<rparr>)\<rparr>))
              \<lparr>inFileMode := Some (ifm\<lparr>written := written ifm + int (length (mc_buffer mc)),
                                     writerRequest := None\<rparr>)\<rparr>) = Some s'"
    then show ?thesis
      by (rule moveNextBufferToFile_requestInvariants) (simp add: p)
  next
    assume "s' = s\<lparr>inFileMode := Some (ifm\<lparr>writerRequest :=
              Some (MoveCtx (mc\<lparr>mc_written := mc_written mc + nat r,
                mc_reqData := drop (mc_written mc + nat r) (mc_buffer mc),
                mc_reqOffset := readOffset ifm + written ifm\<rparr>))\<rparr>)\<rparr>"
    then show ?thesis using p by (simp add: requestInvariants_def)
  next
    assume "setError ops en
            (s\<lparr>inFileMode := Some (ifm\<lparr>writerRequest := None, writerState := WS_TERMINATED\<rparr>)\<rparr>)
          = Some s'"
    then show ?thesis
      by (rule setError_requestInvariants) (simp add: p)
  qed
qed

lemma nextChunkDoneReading_wellFormed:
  assumes wf: "wellFormed s" and run: "nextChunkDoneReading ops cfg rc r en s = Some s'"
  shows "wellFormed s'"
proof -
  from run obtain ifm where ifm: "inFileMode s = Some ifm"
    by (auto simp: nextChunkDoneReading_def split: option.splits)
  note p = wellFormed_parts[OF wf ifm]
  from wf have inv: "invK False s" by (rule wellFormed_invK)
  have inv': "invK False s'" using inv _ run by (rule nextChunkDoneReading_invK) simp
  have base: "wellFormed (s\<lparr>inFileMode := Some (ifm\<lparr>readRequest := None,
                      readOffset := ro, written := wr\<rparr>), readerState := y\<rparr>)"
    if "y \<noteq> RS_READING_FROM_FILE" for ro wr y
    using inv ifm p that
    by (auto simp: wellFormed_def requestInvariants_def invK_def modeInvariants_def)
  from nextChunkDoneReading_cases[OF run ifm] show ?thesis
  proof (elim disjE conjE exE)
    assume "setError ops en (s\<lparr>inFileMode := Some (ifm\<lparr>readRequest := None\<rparr>)\<rparr>) = Some s'"
    then have "requestInvariants s'"
      by (rule setError_requestInvariants) (simp add: p)
    with inv' show ?thesis by (rule wellFormedI)
  next
    fix b s2
    assume s2: "s2 = Channel_feedWithoutRefGuard ops b
                (s\<lparr>inFileMode := Some (ifm\<lparr>readRequest := None,
                      readOffset := readOffset ifm + int (length b),
                      written := written ifm - int (length b)\<rparr>),
                    readerState := RS_FEEDING\<rparr>)"
    have wf2: "wellFormed s2" unfolding s2 Channel_feedWithoutRefGuard_def
      by (simp add: base)
    have ne2: "\<not> modeGeError (mode s2)" unfolding s2 using p by simp
    {
      assume "s' = s2"
      with wf2 show ?thesis by simp
    next
      assume "readNextWithoutRefGuard ops cfg (s2\<lparr>readerState := RS_INACTIVE\<rparr>) = Some s'"
      moreover have "wellFormed (s2\<lparr>readerState := RS_INACTIVE\<rparr>)"
        by (rule wellFormed_reader[OF wf2 ne2]) simp_all
      ultimately show ?thesis by (rule readNextWithoutRefGuard_wellFormed[rotated])
    next
      assume "s' = readNextWhenChannelIdle s2"
      then show ?thesis using wellFormed_reader[OF wf2 ne2, of s'] by simp
    next
      assume "s' = terminateReaderBecauseOfEOF ops s2"
      then show ?thesis using wf2 by (simp add: terminateReader_wellFormed)
    }
  qed
qed

lemma step_wellFormed:
  assumes wf: "wellFormed s" and run: "step ops cfg e s = Some s'"
  shows "wellFormed s'"
proof (cases e)
  case (Feed b)
  with wf run show ?thesis by (auto simp: feed_def intro: feedWithoutRefGuard_wellFormed)
next
  case (FeedError x)
  with run have se: "setError ops x s = Some s'" by (simp add: feedError_def)
  show ?thesis
  proof (cases "modeGeError (mode s)")
    case True
    with se wf show ?thesis by (simp add: setError_def)
  next
    case False
    from wf have "invK False s" by (rule wellFormed_invK)
    then have "invK False s'" using _ se by (rule setError_invK) simp
    moreover from se False have "requestInvariants s'" by (rule setError_requestInvariants)
    ultimately show ?thesis by (rule wellFormedI)
  qed
next
  case Reinitialize
  with wf run show ?thesis by (auto simp: reinitialize_def)
next
  case Deinitialize
  with run show ?thesis by (auto intro: deinitialize_wellFormed)
next
  case (Consumed n eof)
  with wf run show ?thesis by (auto intro: consumed_wellFormed)
next
  case BufferFileDoneDelaying
  show ?thesis
  proof (cases "inFileMode s")
    case None
    with BufferFileDoneDelaying run wf show ?thesis
      by (simp add: bufferFileDoneDelaying_onEventLoopThread_def)
  next
    case (Some ifm)
    note p = wellFormed_parts[OF wf Some]
    from BufferFileDoneDelaying Some run have
      "s' = s \<or> s' = s\<lparr>inFileMode := Some (ifm\<lparr>writerRequest := Some (FileCreationContext False)\<rparr>)\<rparr>"
      by (simp add: bufferFileDoneDelaying_onEventLoopThread_def bufferFileDoneDelaying_def
          split: option.splits IOContext.splits bool.splits if_splits)
    then show ?thesis
    proof
      assume "s' = s" with wf show ?thesis by simp
    next
      assume "s' = s\<lparr>inFileMode := Some (ifm\<lparr>writerRequest := Some (FileCreationContext False)\<rparr>)\<rparr>"
      then show ?thesis using wellFormed_update_inFileMode[OF wf Some] p by simp
    qed
  qed
next
  case (BufferFileCreated r en)
  with run have "s' = s \<or> bufferFileCreated ops cfg r en s = Some s'"
    by (simp add: bufferFileCreated_onEventLoopThread_def
        split: option.splits IOContext.splits bool.splits if_splits)
  with wf show ?thesis by (auto intro: bufferFileCreated_wellFormed)
next
  case (BufferWrittenToFile r en)
  show ?thesis
  proof (cases "inFileMode s")
    case None
    with BufferWrittenToFile run wf show ?thesis
      by (simp add: bufferWrittenToFile_onEventLoopThread_def)
  next
    case (Some ifm)
    note p = wellFormed_parts[OF wf Some]
    have upd: "wellFormed (s\<lparr>inFileMode := Some (ifm\<lparr>fileData := x\<rparr>)\<rparr>)" for x
      using wellFormed_update_inFileMode[OF wf Some, of "ifm\<lparr>fileData := x\<rparr>"] p by simp
    from BufferWrittenToFile Some run have
      "s' = s \<or> (\<exists>mc x. bufferWrittenToFile ops mc r en
          (s\<lparr>inFileMode := Some (ifm\<lparr>fileData := x\<rparr>)\<rparr>) = Some s')"
      by (simp add: bufferWrittenToFile_onEventLoopThread_def
          split: option.splits IOContext.splits) blast
    with wf upd show ?thesis by (auto intro: bufferWrittenToFile_wellFormed)
  qed
next
  case (NextChunkDoneReading r en)
  with run have "s' = s \<or> (\<exists>rc. nextChunkDoneReading ops cfg rc r en s = Some s')"
    by (simp add: nextChunkDoneReading_onEventLoopThread_def split: option.splits) blast
  with wf show ?thesis by (auto intro: nextChunkDoneReading_wellFormed)
qed

lemma run_wellFormed:
  "wellFormed s \<Longrightarrow> run ops cfg es s = Some s' \<Longrightarrow> wellFormed s'"
proof (induction es arbitrary: s)
  case Nil
  then show ?case by simp
next
  case (Cons e es)
  from Cons.prems(2) obtain s1 where s1: "step ops cfg e s = Some s1"
    and rest: "run ops cfg es s1 = Some s'"
    by (auto split: option.splits)
  from Cons.prems(1) s1 have "wellFormed s1" by (rule step_wellFormed)
  then show ?case using rest by (rule Cons.IH)
qed

lemma wellFormed_initial: "wellFormed (FileBufferedChannel w)"
  by (rule wellFormedI[OF invK_initial]) (simp add: requestInvariants_def FileBufferedChannel_def)

lemma deinitialize_returns:
  assumes "wellFormed s"
  shows "\<exists>s'. deinitialize ops s = Some s'"
proof -
  obtain s1 where s1: "cancelReader s = Some s1"
    and same: "mode s1 = mode s" "inFileMode s1 = None \<longleftrightarrow> inFileMode s = None"
    and wr: "\<And>ifm1. inFileMode s1 = Some ifm1 \<Longrightarrow>
        \<exists>ifm. inFileMode s = Some ifm \<and> writerState ifm1 = writerState ifm
          \<and> writerRequest ifm1 = writerRequest ifm"
    using assms
    by (cases "readerState s")
       (auto simp: cancelReader_def wellFormed_def requestInvariants_def split: option.splits)
  have "\<exists>s2. (if mode s1 = IN_FILE_MODE then cancelWriter s1 else Some s1) = Some s2"
  proof (cases "mode s1 = IN_FILE_MODE")
    case False
    then show ?thesis by simp
  next
    case True
    with same assms obtain ifm1 where ifm1: "inFileMode s1 = Some ifm1"
      by (auto simp: wellFormed_def invK_def modeInvariants_def)
    from wr[OF ifm1] obtain ifm where ifm: "inFileMode s = Some ifm"
      "writerState ifm1 = writerState ifm" "writerRequest ifm1 = writerRequest ifm"
      by blast
    from wellFormed_parts(4)[OF assms ifm(1)] ifm ifm1 True show ?thesis
      by (cases "writerState ifm1") (auto simp: cancelWriter_def)
  qed
  with s1 show ?thesis by (auto simp: deinitialize_def Let_def)
qed

subsection \<open>Partial writes\<close>

text \<open>
  C2 (the code deviates). The mover re-issues the rest of a partially written buffer at the
  offset of the first write, \<^verbatim>\<open>readOffset + written\<close>, not advanced by the bytes already
  written. Here \<^verbatim>\<open>"x"\<close> is in the file at offset 0 and the write of \<^verbatim>\<open>"abcd"\<close> at offset 1
  completes with 2 bytes: the request for the rest, \<^verbatim>\<open>"cd"\<close>, is again at offset 1, and when
  it completes the file holds \<^verbatim>\<open>"xcd"\<close>, not \<^verbatim>\<open>"xabcd"\<close>.
\<close>

lemma partial_write_request:
  assumes "inFileMode s = Some ifm" and "r \<noteq> -1"
    and "mc_written mc + nat r \<noteq> length (mc_buffer mc)"
  shows "bufferWrittenToFile ops mc r en s
    = Some (s\<lparr>inFileMode := Some (ifm\<lparr>writerRequest :=
        Some (MoveCtx (mc\<lparr>mc_written := mc_written mc + nat r,
          mc_reqData := drop (mc_written mc + nat r) (mc_buffer mc),
          mc_reqOffset := readOffset ifm + written ifm\<rparr>))\<rparr>)\<rparr>)"
  using assms by (simp add: bufferWrittenToFile_def Let_def)

theorem partial_write_reuses_offset:
  "run (Channel_ops False) (sampleConfig 1 True)
     [Feed ''x'', Feed ''abcd'', BufferFileCreated 3 0, BufferWrittenToFile 1 0,
      BufferWrittenToFile 2 0] (FileBufferedChannel newChannel)
   = Some \<lparr> mode = IN_FILE_MODE, readerState = RS_WAITING_FOR_CHANNEL_IDLE, nbuffers = 1,
       errcode = 0, bytesBuffered = 4, firstBuffer = ''abcd'', moreBuffers = [],
       inFileMode = Some \<lparr> fd = 3, readRequest = None, writerState = WS_MOVING,
         writerRequest = Some (MoveCtx \<lparr> mc_buffer = ''abcd'', mc_written = 2,
           mc_reqData = ''cd'', mc_reqOffset = 1 \<rparr>),
         readOffset = 1, written = 0, fileData = ''xab'' \<rparr>,
       chan = \<lparr> state = CALLING, generation = 0, received = [Data ''x''],
         buffersFlushedCalls = 0, dataFlushedCalls = 0 \<rparr>,
         canceledContexts = [] \<rparr>
   \<and> run (Channel_ops False) (sampleConfig 1 True)
     [Feed ''x'', Feed ''abcd'', BufferFileCreated 3 0, BufferWrittenToFile 1 0,
      BufferWrittenToFile 2 0, BufferWrittenToFile 2 0] (FileBufferedChannel newChannel)
   = Some \<lparr> mode = IN_FILE_MODE, readerState = RS_WAITING_FOR_CHANNEL_IDLE, nbuffers = 0,
       errcode = 0, bytesBuffered = 0, firstBuffer = [], moreBuffers = [],
       inFileMode = Some \<lparr> fd = 3, readRequest = None, writerState = WS_INACTIVE,
         writerRequest = None, readOffset = 1, written = 4, fileData = ''xcd'' \<rparr>,
       chan = \<lparr> state = CALLING, generation = 0, received = [Data ''x''],
         buffersFlushedCalls = 1, dataFlushedCalls = 0 \<rparr>,
         canceledContexts = [] \<rparr>"
  by (simp add: eval_defs)

text \<open>
  C1 (the code deviates). With a consumer that accepts every buffer, each by a later
  \<^verbatim>\<open>consumed\<close>, the buffers \<^verbatim>\<open>"x"\<close> and \<^verbatim>\<open>"abcd"\<close> are fed and no end of stream. The write of
  \<^verbatim>\<open>"abcd"\<close> completes in two parts, so the file holds \<^verbatim>\<open>"xcd"\<close>; the reader then reads 2
  bytes where it expects 4 and 0 bytes after them. The underlying channel is fed \<^verbatim>\<open>"x"\<close>,
  \<^verbatim>\<open>"cd"\<close> and the empty buffer, the end of the stream.
\<close>

theorem partial_write_breaks_order:
  "run (Channel_ops False) (sampleConfig 1 True)
     [Feed ''x'', Feed ''abcd'', BufferFileCreated 3 0, BufferWrittenToFile 1 0,
      BufferWrittenToFile 2 0, BufferWrittenToFile 2 0, Consumed 1 False,
      NextChunkDoneReading 2 0, Consumed 2 False, NextChunkDoneReading 0 0]
     (FileBufferedChannel newChannel)
   = Some \<lparr> mode = IN_FILE_MODE, readerState = RS_TERMINATED, nbuffers = 0, errcode = 0,
       bytesBuffered = 0, firstBuffer = [], moreBuffers = [],
       inFileMode = Some \<lparr> fd = 3, readRequest = None, writerState = WS_INACTIVE,
         writerRequest = None, readOffset = 3, written = 2, fileData = ''xcd'' \<rparr>,
       chan = \<lparr> state = EOF_REACHED, generation = 0,
         received = [Data ''x'', Data ''cd'', EndOfStream],
         buffersFlushedCalls = 1, dataFlushedCalls = 1 \<rparr>,
         canceledContexts = [] \<rparr>"
  by (simp add: eval_defs)

subsection \<open>Finding the buffer to serve from memory\<close>

lemma walkMoreBuffers_found:
  assumes "i < length bs"
    and "offset + of_nat (sum_list (map length (take i bs))) = target \<or> bs ! i = []"
    and "\<forall>j<i. offset + of_nat (sum_list (map length (take j bs))) \<noteq> target \<and> bs ! j \<noteq> []"
  shows "walkMoreBuffers target offset bs = (bs ! i, True)"
  using assms
proof (induction bs arbitrary: offset i)
  case Nil
  then show ?case by simp
next
  case (Cons b bs)
  show ?case
  proof (cases i)
    case 0
    with Cons.prems show ?thesis by auto
  next
    case (Suc k)
    from Cons.prems(3) Suc have first: "offset \<noteq> target" "b \<noteq> []"
      by (auto dest: spec[of _ 0])
    have k: "k < length bs" using Cons.prems(1) Suc by simp
    have at: "(offset + of_nat (length b)) + of_nat (sum_list (map length (take k bs))) = target
        \<or> bs ! k = []"
      using Cons.prems(2) Suc by (simp add: add.assoc)
    have before: "\<forall>j<k. (offset + of_nat (length b)) + of_nat (sum_list (map length (take j bs)))
        \<noteq> target \<and> bs ! j \<noteq> []"
    proof (intro allI impI)
      fix j assume "j < k"
      then have "Suc j < i" using Suc by simp
      with Cons.prems(3) have
        "offset + of_nat (sum_list (map length (take (Suc j) (b # bs)))) \<noteq> target
         \<and> (b # bs) ! Suc j \<noteq> []"
        by blast
      then show "(offset + of_nat (length b)) + of_nat (sum_list (map length (take j bs)))
        \<noteq> target \<and> bs ! j \<noteq> []"
        by (simp add: add.assoc)
    qed
    from Cons.IH[OF k at before] first Suc show ?thesis by simp
  qed
qed

lemma walkMoreBuffers_not_found:
  assumes "\<forall>i<length bs. offset + of_nat (sum_list (map length (take i bs))) \<noteq> target
             \<and> bs ! i \<noteq> []"
  shows "walkMoreBuffers target offset bs = ([], False)"
  using assms
proof (induction bs arbitrary: offset)
  case Nil
  then show ?case by simp
next
  case (Cons b bs)
  from Cons.prems have first: "offset \<noteq> target" "b \<noteq> []"
    by (auto dest: spec[of _ 0])
  have rest: "\<forall>i<length bs. (offset + of_nat (length b))
      + of_nat (sum_list (map length (take i bs))) \<noteq> target \<and> bs ! i \<noteq> []"
  proof (intro allI impI)
    fix i assume "i < length bs"
    then have "Suc i < length (b # bs)" by simp
    with Cons.prems have
      "offset + of_nat (sum_list (map length (take (Suc i) (b # bs)))) \<noteq> target
       \<and> (b # bs) ! Suc i \<noteq> []"
      by blast
    then show "(offset + of_nat (length b)) + of_nat (sum_list (map length (take i bs)))
      \<noteq> target \<and> bs ! i \<noteq> []"
      by (simp add: add.assoc)
  qed
  from Cons.IH[OF rest] first show ?case by simp
qed

lemma walkTarget_zero: "written ifm = 0 \<Longrightarrow> walkTarget ifm = 0"
  by (simp add: walkTarget_def)

lemma walkTarget_nonzero:
  assumes "written ifm < 0" and "- (2 ^ 32) < written ifm"
  shows "walkTarget ifm \<noteq> 0"
proof
  assume "walkTarget ifm = 0"
  then have "(2::int) ^ 32 dvd - written ifm"
    by (simp add: walkTarget_def word_of_int_eq_0_iff)
  then have "(2::int) ^ 32 \<le> - written ifm"
    using assms(1) by (intro zdvd_imp_le) simp_all
  with assms(2) show False by simp
qed

subsection \<open>Outstanding requests are tracked by the reader and writer states\<close>

lemma requestsTracked_chan_update [simp]: "requestsTracked (s\<lparr>chan := c\<rparr>) = requestsTracked s"
  by (simp add: requestsTracked_def split: option.splits)

lemma requestsTracked_no_file: "inFileMode s = None \<Longrightarrow> requestsTracked s"
  by (simp add: requestsTracked_def)

lemma requestsTracked_parts:
  assumes "requestsTracked s" "inFileMode s = Some ifm"
  shows "readRequest ifm \<noteq> None \<longrightarrow> readerState s = RS_READING_FROM_FILE"
    "writerRequest ifm \<noteq> None
       \<longrightarrow> writerState ifm = WS_CREATING_FILE \<or> writerState ifm = WS_MOVING"
  using assms by (simp_all add: requestsTracked_def)

lemma requestsTracked_not_reading:
  "requestsTracked s \<Longrightarrow> inFileMode s = Some ifm \<Longrightarrow> readerState s \<noteq> RS_READING_FROM_FILE
   \<Longrightarrow> readRequest ifm = None"
  by (auto simp: requestsTracked_def)

lemma requestsTracked_reader:
  "requestsTracked s \<Longrightarrow> readerState s \<noteq> RS_READING_FROM_FILE
   \<Longrightarrow> inFileMode s' = inFileMode s \<Longrightarrow> requestsTracked s'"
  by (auto simp: requestsTracked_def split: option.splits)

lemma afterFeeding_again:
  "snd (afterFeeding ops g s) \<Longrightarrow> fst (afterFeeding ops g s) = s"
  by (simp add: afterFeeding_def split: if_splits)

lemma moveNextBufferToFile_requestsTracked:
  assumes "moveNextBufferToFile s = Some s'" and "inFileMode s = Some ifm"
    and "readRequest ifm \<noteq> None \<longrightarrow> readerState s = RS_READING_FROM_FILE"
    and "writerRequest ifm = None"
  shows "requestsTracked s'"
  using assms
  by (auto simp: moveNextBufferToFile_def requestsTracked_def split: if_splits)

lemma createBufferFile_requestsTracked:
  assumes "createBufferFile cfg s = Some s'" and "inFileMode s = Some ifm"
    and "readRequest ifm \<noteq> None \<longrightarrow> readerState s = RS_READING_FROM_FILE"
  shows "requestsTracked s'"
  using assms
  by (auto simp: createBufferFile_def requestsTracked_def)

lemma setError_requestsTracked:
  "setError ops e s = Some s' \<Longrightarrow> \<not> modeGeError (mode s) \<Longrightarrow> requestsTracked s'"
  by (drule setError_Some) (auto simp: requestsTracked_def)

lemma invK_IN_MEMORY_no_file:
  "invK k s \<Longrightarrow> mode s = IN_MEMORY_MODE \<Longrightarrow> inFileMode s = None"
  by (auto simp: invK_def modeInvariants_def)

lemma readNextPass_IN_MEMORY_no_file:
  assumes "mode s = IN_MEMORY_MODE" "inFileMode s = None" "readNextPass ops cfg s = Some r"
  shows "inFileMode (fst r) = None"
  using assms
  by (auto simp: readNextPass_def Let_def afterFeeding_fields afterFeedingEOF_fields
      split: if_splits)

lemma readNextPass_IN_MEMORY_again:
  assumes "mode s = IN_MEMORY_MODE" "readNextPass ops cfg s = Some r" "snd r"
  shows "readerState (fst r) = RS_FEEDING"
  using assms
  by (auto simp: readNextPass_def Let_def split: if_splits dest!: afterFeeding_again)

lemma readNextPass_requestsTracked:
  assumes tr: "requestsTracked s" and nr: "readerState s \<noteq> RS_READING_FROM_FILE"
    and inv: "invK False s" and run: "readNextPass ops cfg s = Some r"
  shows "requestsTracked (fst r) \<and> (snd r \<longrightarrow> readerState (fst r) \<noteq> RS_READING_FROM_FILE)"
proof (cases "mode s")
  case IN_MEMORY_MODE
  from inv IN_MEMORY_MODE have "inFileMode s = None" by (rule invK_IN_MEMORY_no_file)
  from readNextPass_IN_MEMORY_no_file[OF IN_MEMORY_MODE this run]
  have "requestsTracked (fst r)" by (rule requestsTracked_no_file)
  moreover have "snd r \<longrightarrow> readerState (fst r) \<noteq> RS_READING_FROM_FILE"
    using readNextPass_IN_MEMORY_again[OF IN_MEMORY_MODE run] by simp
  ultimately show ?thesis by simp
next
  case IN_FILE_MODE
  from readNextPass_IN_FILE[OF IN_FILE_MODE run] obtain ifm where
    ifm: "inFileMode s = Some ifm" and
    cs: "(0 < written ifm
        \<and> r = (s\<lparr>readerState := RS_READING_FROM_FILE,
              inFileMode := Some (ifm\<lparr>readRequest :=
                Some \<lparr> rc_size = min (nat (written ifm)) (mbufPoolDataSize cfg),
                       rc_offset = readOffset ifm \<rparr>\<rparr>)\<rparr>, False))
     \<or> (written ifm \<le> 0 \<and> \<not> snd (findBufferForReadProcessing s ifm) \<and> autoTruncateFile cfg
        \<and> (\<exists>s2. switchToInMemoryMode (s\<lparr>readerState := RS_INACTIVE\<rparr>) = Some s2
                \<and> r = (callDataFlushedCallback ops s2, False)))
     \<or> (written ifm \<le> 0 \<and> \<not> snd (findBufferForReadProcessing s ifm) \<and> \<not> autoTruncateFile cfg
        \<and> r = (callDataFlushedCallback ops (s\<lparr>readerState := RS_INACTIVE\<rparr>), False))
     \<or> (written ifm \<le> 0 \<and> snd (findBufferForReadProcessing s ifm)
        \<and> fst (findBufferForReadProcessing s ifm) = []
        \<and> r = (afterFeedingEOF ops (ch_generation ops (chan s))
              (Channel_feedWithoutRefGuard ops (fst (findBufferForReadProcessing s ifm))
                 (s\<lparr>readerState := RS_FEEDING_EOF\<rparr>)), False))
     \<or> (written ifm \<le> 0 \<and> snd (findBufferForReadProcessing s ifm)
        \<and> fst (findBufferForReadProcessing s ifm) \<noteq> []
        \<and> r = afterFeeding ops (ch_generation ops (chan s))
              (Channel_feedWithoutRefGuard ops (fst (findBufferForReadProcessing s ifm))
                 (s\<lparr>inFileMode := Some (ifm\<lparr>
                        readOffset := readOffset ifm
                          + int (length (fst (findBufferForReadProcessing s ifm))),
                        written := written ifm
                          - int (length (fst (findBufferForReadProcessing s ifm)))\<rparr>),
                     readerState := RS_FEEDING\<rparr>)))"
    by blast
  from tr ifm nr have rn: "readRequest ifm = None" by (rule requestsTracked_not_reading)
  note w = requestsTracked_parts(2)[OF tr ifm]
  from cs show ?thesis
  proof (elim disjE conjE exE)
    assume "r = (s\<lparr>readerState := RS_READING_FROM_FILE,
              inFileMode := Some (ifm\<lparr>readRequest :=
                Some \<lparr> rc_size = min (nat (written ifm)) (mbufPoolDataSize cfg),
                       rc_offset = readOffset ifm \<rparr>\<rparr>)\<rparr>, False)"
    then show ?thesis using w by (simp add: requestsTracked_def)
  next
    fix s2
    assume "switchToInMemoryMode (s\<lparr>readerState := RS_INACTIVE\<rparr>) = Some s2"
      and r: "r = (callDataFlushedCallback ops s2, False)"
    then have "inFileMode s2 = None" by (auto dest: switchToInMemoryMode_Some)
    with r show ?thesis by (simp add: requestsTracked_def)
  next
    assume "r = (callDataFlushedCallback ops (s\<lparr>readerState := RS_INACTIVE\<rparr>), False)"
    then show ?thesis using w rn ifm by (simp add: requestsTracked_def)
  next
    assume "r = (afterFeedingEOF ops (ch_generation ops (chan s))
              (Channel_feedWithoutRefGuard ops (fst (findBufferForReadProcessing s ifm))
                 (s\<lparr>readerState := RS_FEEDING_EOF\<rparr>)), False)"
    then show ?thesis using w rn ifm
      by (simp add: requestsTracked_def afterFeedingEOF_fields)
  next
    let ?t = "Channel_feedWithoutRefGuard ops (fst (findBufferForReadProcessing s ifm))
                 (s\<lparr>inFileMode := Some (ifm\<lparr>
                        readOffset := readOffset ifm
                          + int (length (fst (findBufferForReadProcessing s ifm))),
                        written := written ifm
                          - int (length (fst (findBufferForReadProcessing s ifm)))\<rparr>),
                     readerState := RS_FEEDING\<rparr>)"
    assume r: "r = afterFeeding ops (ch_generation ops (chan s)) ?t"
    have "requestsTracked (fst r)" unfolding r using w rn
      by (simp add: requestsTracked_def afterFeeding_fields)
    moreover have "snd r \<longrightarrow> readerState (fst r) \<noteq> RS_READING_FROM_FILE"
    proof
      assume "snd r"
      then have "fst r = ?t" unfolding r by (rule afterFeeding_again)
      then show "readerState (fst r) \<noteq> RS_READING_FROM_FILE" by simp
    qed
    ultimately show ?thesis by simp
  qed
next
  case ERROR
  with run show ?thesis by (simp add: readNextPass_def)
next
  case ERROR_WAITING
  with run show ?thesis by (simp add: readNextPass_def)
qed

lemma readNextWithoutRefGuard_requestsTracked:
  assumes "requestsTracked s" "readerState s \<noteq> RS_READING_FROM_FILE" "invK False s"
    and run: "readNextWithoutRefGuard ops cfg s = Some s'"
  shows "requestsTracked s'"
proof (rule readNextWithoutRefGuard_rule[OF run,
      where Q = "\<lambda>t. requestsTracked t \<and> readerState t \<noteq> RS_READING_FROM_FILE \<and> invK False t"])
  show "requestsTracked s \<and> readerState s \<noteq> RS_READING_FROM_FILE \<and> invK False s"
    using assms by simp
next
  fix t r
  assume q: "requestsTracked t \<and> readerState t \<noteq> RS_READING_FROM_FILE \<and> invK False t"
    and p: "readNextPass ops cfg t = Some r"
  from q p have a: "requestsTracked (fst r)
      \<and> (snd r \<longrightarrow> readerState (fst r) \<noteq> RS_READING_FROM_FILE)"
    by (intro readNextPass_requestsTracked) simp_all
  from q p have b: "invK False (fst r)" by (intro readNextPass_invK[of False t]) simp_all
  from a b show "if snd r
      then requestsTracked (fst r) \<and> readerState (fst r) \<noteq> RS_READING_FROM_FILE
           \<and> invK False (fst r)
      else requestsTracked (fst r)"
    by simp
qed

lemma feedWithoutRefGuard_requestsTracked:
  assumes wf: "wellFormed s" and tr: "requestsTracked s"
    and run: "feedWithoutRefGuard ops cfg b s = Some s'"
  shows "requestsTracked s'"
proof (cases "ended ops s")
  case None
  with run show ?thesis by (simp add: feedWithoutRefGuard_def)
next
  case (Some e)
  show ?thesis
  proof (cases e)
    case True
    with Some run tr show ?thesis by (simp add: feedWithoutRefGuard_def)
  next
    case False
    with Some have ne: "\<not> modeGeError (mode s)" by (simp add: ended_False_not_error)
    let ?s1 = "pushBuffer b s"
    have wf1: "wellFormed ?s1" by (rule wellFormed_reader[OF wf ne]) simp_all
    have tr1: "requestsTracked ?s1" using tr
      by (simp add: requestsTracked_def split: option.splits)
    from run Some False have
      "(case (if mode ?s1 = IN_MEMORY_MODE \<and> passedThreshold cfg ?s1
              then switchToInFileMode cfg ?s1
              else if mode ?s1 = IN_FILE_MODE then
                (case inFileMode ?s1 of
                   None \<Rightarrow> None
                 | Some ifm \<Rightarrow>
                     if writerState ifm = WS_INACTIVE \<and> autoStartMover cfg
                     then moveNextBufferToFile ?s1 else Some ?s1)
              else Some ?s1) of
          None \<Rightarrow> None
        | Some s2 \<Rightarrow>
            (if readerState s2 = RS_INACTIVE then
               (if ch_acceptingInput ops (chan s2) then readNextWithoutRefGuard ops cfg s2
                else Some (readNextWhenChannelIdle s2))
             else Some s2)) = Some s'"
      unfolding feedWithoutRefGuard_def Let_def by simp
    then obtain s2 where
      mid: "(if mode ?s1 = IN_MEMORY_MODE \<and> passedThreshold cfg ?s1
              then switchToInFileMode cfg ?s1
              else if mode ?s1 = IN_FILE_MODE then
                (case inFileMode ?s1 of
                   None \<Rightarrow> None
                 | Some ifm \<Rightarrow>
                     if writerState ifm = WS_INACTIVE \<and> autoStartMover cfg
                     then moveNextBufferToFile ?s1 else Some ?s1)
              else Some ?s1) = Some s2"
      and fin: "(if readerState s2 = RS_INACTIVE then
                  (if ch_acceptingInput ops (chan s2) then readNextWithoutRefGuard ops cfg s2
                   else Some (readNextWhenChannelIdle s2))
                else Some s2) = Some s'"
      by (blast dest: option_case_Some)
    have inv2: "invK False s2"
      using mid wf1[THEN wellFormed_invK]
      by (auto simp del: pushBuffer_fields split: if_splits option.splits
          intro: switchToInFileMode_invK moveNextBufferToFile_invK)
    have tr2: "requestsTracked s2"
    proof (cases "mode ?s1 = IN_MEMORY_MODE \<and> passedThreshold cfg ?s1")
      case True
      with mid have sw: "switchToInFileMode cfg ?s1 = Some s2" by simp
      then have "createBufferFile cfg
          (?s1\<lparr>mode := IN_FILE_MODE, inFileMode := Some newInFileMode\<rparr>) = Some s2"
        by (simp only: switchToInFileMode_def)
      then show ?thesis
        by (rule createBufferFile_requestsTracked[where ifm = newInFileMode])
           (simp_all add: newInFileMode_def)
    next
      case False
      with mid have "s2 = ?s1
          \<or> (\<exists>ifm. inFileMode ?s1 = Some ifm \<and> writerState ifm = WS_INACTIVE
                \<and> moveNextBufferToFile ?s1 = Some s2)"
        by (simp del: pushBuffer_fields split: if_splits option.splits)
      then show ?thesis
      proof (elim disjE exE conjE)
        assume "s2 = ?s1" with tr1 show ?thesis by simp
      next
        fix ifm
        assume ifm: "inFileMode ?s1 = Some ifm" and ws: "writerState ifm = WS_INACTIVE"
          and mv: "moveNextBufferToFile ?s1 = Some s2"
        note p = requestsTracked_parts[OF tr1 ifm]
        from p(2) ws have "writerRequest ifm = None" by auto
        with mv ifm p(1) show ?thesis by (rule moveNextBufferToFile_requestsTracked)
      qed
    qed
    show ?thesis
    proof (cases "readerState s2 = RS_INACTIVE")
      case False
      with fin tr2 show ?thesis by simp
    next
      case True
      then have nr: "readerState s2 \<noteq> RS_READING_FROM_FILE" by simp
      show ?thesis
      proof (cases "ch_acceptingInput ops (chan s2)")
        case True
        with fin \<open>readerState s2 = RS_INACTIVE\<close>
        have "readNextWithoutRefGuard ops cfg s2 = Some s'" by simp
        with tr2 nr inv2 show ?thesis by (rule readNextWithoutRefGuard_requestsTracked)
      next
        case False
        with fin \<open>readerState s2 = RS_INACTIVE\<close>
        have "s' = readNextWhenChannelIdle s2" by simp
        then show ?thesis using requestsTracked_reader[OF tr2 nr, of s'] by simp
      qed
    qed
  qed
qed

lemma onChannelConsumed_requestsTracked:
  assumes wf: "wellFormed s" and tr: "requestsTracked s"
    and run: "onChannelConsumed ops cfg s = Some s'"
  shows "requestsTracked s'"
proof (cases "readerState s = RS_WAITING_FOR_CHANNEL_IDLE")
  case False
  with run have "s' = s \<or> s' = feedErrorWhenChannelIdleOrEnded ops s"
    by (auto simp: onChannelConsumed_def split: if_splits)
  with tr show ?thesis by (auto simp: feedErrorWhenChannelIdleOrEnded_def)
next
  case True
  then have nr: "readerState s \<noteq> RS_READING_FROM_FILE" by simp
  from wf have inv: "invK False s" by (rule wellFormed_invK)
  show ?thesis
  proof (cases "ch_acceptingInput ops (chan s)")
    case False
    with True run have "s' = channelEndedWhileWaitingForItToBecomeIdle ops s"
      by (simp add: onChannelConsumed_def)
    then show ?thesis using requestsTracked_reader[OF tr nr, of s']
      by (simp add: channelEndedWhileWaitingForItToBecomeIdle_def)
  next
    case acc: True
    with True run have ch: "channelHasBecomeIdle ops cfg s = Some s'"
      by (simp add: onChannelConsumed_def)
    then have "readNextWithoutRefGuard ops cfg s = Some s'"
      by (simp add: channelHasBecomeIdle_def readNext_def)
    with tr nr inv show ?thesis by (rule readNextWithoutRefGuard_requestsTracked)
  qed
qed

lemma bufferFileCreated_requestsTracked:
  assumes wf: "wellFormed s" and tr: "requestsTracked s"
    and run: "bufferFileCreated ops cfg r en s = Some s'"
  shows "requestsTracked s'"
proof -
  from run obtain ifm where ifm: "inFileMode s = Some ifm"
    by (auto simp: bufferFileCreated_def split: option.splits)
  note p = wellFormed_parts[OF wf ifm]
  note q = requestsTracked_parts(1)[OF tr ifm]
  from bufferFileCreated_cases[OF run ifm] show ?thesis
  proof (elim disjE conjE)
    assume "moveNextBufferToFile
        (s\<lparr>inFileMode := Some (ifm\<lparr>writerRequest := None, fd := r, fileData := []\<rparr>)\<rparr>) = Some s'"
    moreover have "inFileMode (s\<lparr>inFileMode := Some X\<rparr>) = Some X" for X by simp
    ultimately show ?thesis
      by (rule moveNextBufferToFile_requestsTracked) (simp_all add: q)
  next
    assume "createBufferFile cfg
        (s\<lparr>inFileMode := Some (ifm\<lparr>writerRequest := None, writerState := WS_INACTIVE\<rparr>)\<rparr>) = Some s'"
    moreover have "inFileMode (s\<lparr>inFileMode := Some X\<rparr>) = Some X" for X by simp
    ultimately show ?thesis
      by (rule createBufferFile_requestsTracked) (simp_all add: q)
  next
    assume "setError ops en (s\<lparr>inFileMode := Some (ifm\<lparr>writerRequest := None\<rparr>)\<rparr>) = Some s'"
    then show ?thesis by (rule setError_requestsTracked) (simp add: p)
  qed
qed

lemma bufferWrittenToFile_requestsTracked:
  assumes wf: "wellFormed s" and tr: "requestsTracked s"
    and ifm: "inFileMode s = Some ifm" and wr: "writerRequest ifm \<noteq> None"
    and run: "bufferWrittenToFile ops mc r en s = Some s'"
  shows "requestsTracked s'"
proof -
  note p = wellFormed_parts[OF wf ifm]
  note q = requestsTracked_parts[OF tr ifm]
  from bufferWrittenToFile_cases[OF run ifm] show ?thesis
  proof (elim disjE conjE)
    assume "s' = popBuffer ops (s\<lparr>inFileMode :=
              Some (ifm\<lparr>written := written ifm + int (length (mc_buffer mc))\<rparr>)\<rparr>)"
    then show ?thesis using q by (simp add: requestsTracked_def)
  next
    assume "moveNextBufferToFile
            ((popBuffer ops (s\<lparr>inFileMode :=
                Some (ifm\<lparr>written := written ifm + int (length (mc_buffer mc))\<rparr>)\<rparr>))
              \<lparr>inFileMode := Some (ifm\<lparr>written := written ifm + int (length (mc_buffer mc)),
                                     writerRequest := None\<rparr>)\<rparr>) = Some s'"
    then show ?thesis
      by (rule moveNextBufferToFile_requestsTracked[where ifm =
            "ifm\<lparr>written := written ifm + int (length (mc_buffer mc)), writerRequest := None\<rparr>"])
         (simp_all add: q)
  next
    assume "s' = s\<lparr>inFileMode := Some (ifm\<lparr>writerRequest :=
              Some (MoveCtx (mc\<lparr>mc_written := mc_written mc + nat r,
                mc_reqData := drop (mc_written mc + nat r) (mc_buffer mc),
                mc_reqOffset := readOffset ifm + written ifm\<rparr>))\<rparr>)\<rparr>"
    then show ?thesis using q wr by (simp add: requestsTracked_def)
  next
    assume "setError ops en
            (s\<lparr>inFileMode := Some (ifm\<lparr>writerRequest := None, writerState := WS_TERMINATED\<rparr>)\<rparr>)
          = Some s'"
    then show ?thesis by (rule setError_requestsTracked) (simp add: p)
  qed
qed


lemma nextChunkDoneReading_requestsTracked:
  assumes wf: "wellFormed s" and tr: "requestsTracked s"
    and run: "nextChunkDoneReading ops cfg rc r en s = Some s'"
  shows "requestsTracked s'"
proof -
  from run obtain ifm where ifm: "inFileMode s = Some ifm"
    by (auto simp: nextChunkDoneReading_def split: option.splits)
  note p = wellFormed_parts[OF wf ifm]
  note q = requestsTracked_parts[OF tr ifm]
  from wf have inv: "invK False s" by (rule wellFormed_invK)
  from nextChunkDoneReading_cases[OF run ifm] show ?thesis
  proof (elim disjE conjE exE)
    assume "setError ops en (s\<lparr>inFileMode := Some (ifm\<lparr>readRequest := None\<rparr>)\<rparr>) = Some s'"
    then show ?thesis by (rule setError_requestsTracked) (simp add: p)
  next
    fix b s2
    assume s2: "s2 = Channel_feedWithoutRefGuard ops b
                (s\<lparr>inFileMode := Some (ifm\<lparr>readRequest := None,
                      readOffset := readOffset ifm + int (length b),
                      written := written ifm - int (length b)\<rparr>),
                    readerState := RS_FEEDING\<rparr>)"
    have tr2: "requestsTracked s2" unfolding s2 using q(2)
      by (simp add: requestsTracked_def)
    have nr2: "readerState s2 \<noteq> RS_READING_FROM_FILE" unfolding s2 by simp
    have inv2: "invK False s2" unfolding s2 using inv ifm p
      by (auto simp: invK_def modeInvariants_def errcodeInvariant_def)
    have ne2: "\<not> modeGeError (mode s2)" unfolding s2 using p by simp
    {
      assume "s' = s2"
      with tr2 show ?thesis by simp
    next
      assume rn: "readNextWithoutRefGuard ops cfg (s2\<lparr>readerState := RS_INACTIVE\<rparr>) = Some s'"
      have "requestsTracked (s2\<lparr>readerState := RS_INACTIVE\<rparr>)"
        by (rule requestsTracked_reader[OF tr2 nr2]) simp
      moreover have "invK False (s2\<lparr>readerState := RS_INACTIVE\<rparr>)"
        using inv2 ne2 by (simp add: invK_readerState_update)
      ultimately show ?thesis
        by (intro readNextWithoutRefGuard_requestsTracked[OF _ _ _ rn]) simp_all
    next
      assume "s' = readNextWhenChannelIdle s2"
      then show ?thesis using requestsTracked_reader[OF tr2 nr2, of s'] by simp
    next
      assume "s' = terminateReaderBecauseOfEOF ops s2"
      then show ?thesis using requestsTracked_reader[OF tr2 nr2, of s'] by simp
    }
  qed
qed

lemma requestsTracked_initial: "requestsTracked (FileBufferedChannel w)"
  by (simp add: requestsTracked_def FileBufferedChannel_def)

lemma deinitialize_no_file: "deinitialize ops s = Some s' \<Longrightarrow> inFileMode s' = None"
  by (auto simp: deinitialize_def Let_def clearBuffers_def split: option.splits)

lemma step_requestsTracked:
  assumes wf: "wellFormed s" and tr: "requestsTracked s" and run: "step ops cfg e s = Some s'"
  shows "requestsTracked s'"
proof (cases e)
  case (Feed b)
  with run have "feedWithoutRefGuard ops cfg b s = Some s'" by (simp add: feed_def)
  with wf tr show ?thesis by (rule feedWithoutRefGuard_requestsTracked)
next
  case (FeedError x)
  with run have se: "setError ops x s = Some s'" by (simp add: feedError_def)
  show ?thesis
  proof (cases "modeGeError (mode s)")
    case True
    with se tr show ?thesis by (simp add: setError_def)
  next
    case False
    with se show ?thesis by (rule setError_requestsTracked)
  qed
next
  case Reinitialize
  with tr run show ?thesis by (auto simp: reinitialize_def)
next
  case Deinitialize
  with run have "inFileMode s' = None" by (auto dest: deinitialize_no_file)
  then show ?thesis by (rule requestsTracked_no_file)
next
  case (Consumed n eof)
  with run have "onChannelConsumed ops cfg (s\<lparr>chan := ch_consumed ops n eof (chan s)\<rparr>) = Some s'"
    by (simp add: consumed_def)
  moreover have "wellFormed (s\<lparr>chan := ch_consumed ops n eof (chan s)\<rparr>)"
    using wf by simp
  moreover have "requestsTracked (s\<lparr>chan := ch_consumed ops n eof (chan s)\<rparr>)"
    using tr by simp
  ultimately show ?thesis by (rule onChannelConsumed_requestsTracked[rotated 2])
next
  case BufferFileDoneDelaying
  show ?thesis
  proof (cases "inFileMode s")
    case None
    with BufferFileDoneDelaying run tr show ?thesis
      by (simp add: bufferFileDoneDelaying_onEventLoopThread_def)
  next
    case (Some ifm)
    note q = requestsTracked_parts[OF tr Some]
    from BufferFileDoneDelaying Some run have
      "s' = s \<or> (writerRequest ifm \<noteq> None
          \<and> s' = s\<lparr>inFileMode := Some (ifm\<lparr>writerRequest := Some (FileCreationContext False)\<rparr>)\<rparr>)"
      by (simp add: bufferFileDoneDelaying_onEventLoopThread_def bufferFileDoneDelaying_def
          split: option.splits IOContext.splits bool.splits if_splits)
    then show ?thesis
    proof (elim disjE conjE)
      assume "s' = s" with tr show ?thesis by simp
    next
      assume "writerRequest ifm \<noteq> None"
        and "s' = s\<lparr>inFileMode := Some (ifm\<lparr>writerRequest := Some (FileCreationContext False)\<rparr>)\<rparr>"
      then show ?thesis using q by (simp add: requestsTracked_def)
    qed
  qed
next
  case (BufferFileCreated r en)
  with run have "s' = s \<or> bufferFileCreated ops cfg r en s = Some s'"
    by (simp add: bufferFileCreated_onEventLoopThread_def
        split: option.splits IOContext.splits bool.splits if_splits)
  with wf tr show ?thesis by (auto intro: bufferFileCreated_requestsTracked)
next
  case (BufferWrittenToFile r en)
  show ?thesis
  proof (cases "inFileMode s")
    case None
    with BufferWrittenToFile run tr show ?thesis
      by (simp add: bufferWrittenToFile_onEventLoopThread_def)
  next
    case (Some ifm)
    note p = wellFormed_parts[OF wf Some]
    note q = requestsTracked_parts[OF tr Some]
    from BufferWrittenToFile Some run have
      "s' = s \<or> (\<exists>mc. writerRequest ifm = Some (MoveCtx mc)
          \<and> bufferWrittenToFile ops mc r en
               (s\<lparr>inFileMode := Some (ifm\<lparr>fileData := eio_write_done mc r (fileData ifm)\<rparr>)\<rparr>)
             = Some s')"
      by (simp add: bufferWrittenToFile_onEventLoopThread_def
          split: option.splits IOContext.splits)
    then show ?thesis
    proof (elim disjE exE conjE)
      assume "s' = s" with tr show ?thesis by simp
    next
      fix mc
      let ?t = "s\<lparr>inFileMode := Some (ifm\<lparr>fileData := eio_write_done mc r (fileData ifm)\<rparr>)\<rparr>"
      assume wr: "writerRequest ifm = Some (MoveCtx mc)"
        and bw: "bufferWrittenToFile ops mc r en ?t = Some s'"
      have wft: "wellFormed ?t"
        using wellFormed_update_inFileMode[OF wf Some,
            of "ifm\<lparr>fileData := eio_write_done mc r (fileData ifm)\<rparr>"] wr
          wellFormed_parts[OF wf Some]
        by (auto simp: wellFormed_def requestInvariants_def Some)
      have trt: "requestsTracked ?t" using q by (simp add: requestsTracked_def)
      show ?thesis
        by (rule bufferWrittenToFile_requestsTracked[OF wft trt _ _ bw,
              where ifm = "ifm\<lparr>fileData := eio_write_done mc r (fileData ifm)\<rparr>"])
           (simp_all add: wr)
    qed
  qed
next
  case (NextChunkDoneReading r en)
  with run have "s' = s \<or> (\<exists>rc. nextChunkDoneReading ops cfg rc r en s = Some s')"
    by (auto simp: nextChunkDoneReading_onEventLoopThread_def split: option.splits)
  with wf tr show ?thesis by (auto intro: nextChunkDoneReading_requestsTracked)
qed

lemma run_requestsTracked:
  "wellFormed s \<Longrightarrow> requestsTracked s \<Longrightarrow> run ops cfg es s = Some s' \<Longrightarrow> requestsTracked s'"
proof (induction es arbitrary: s)
  case Nil
  then show ?case by simp
next
  case (Cons e es)
  from Cons.prems(3) obtain s1 where st: "step ops cfg e s = Some s1"
    and rest: "run ops cfg es s1 = Some s'"
    by (auto split: option.splits)
  from Cons.prems(1) st have "wellFormed s1" by (rule step_wellFormed)
  moreover from Cons.prems(1,2) st have "requestsTracked s1" by (rule step_requestsTracked)
  ultimately show ?case using rest by (rule Cons.IH)
qed

lemma cancelReader_cancels:
  assumes wf: "wellFormed s" and tr: "requestsTracked s"
  shows "\<exists>s1. cancelReader s = Some s1
     \<and> canceledContexts s1 = canceledContexts s
         @ (case inFileMode s of
              None \<Rightarrow> []
            | Some ifm \<Rightarrow> (case readRequest ifm of None \<Rightarrow> [] | Some rc \<Rightarrow> [ReadRequest rc]))
     \<and> inFileMode s1 = map_option (\<lambda>ifm. ifm\<lparr>readRequest := None\<rparr>) (inFileMode s)
     \<and> mode s1 = mode s \<and> chan s1 = chan s"
proof (cases "inFileMode s")
  case None
  with wf have "readerState s \<noteq> RS_READING_FROM_FILE"
    by (auto simp: wellFormed_def requestInvariants_def)
  with None show ?thesis
    by (cases "readerState s") (simp_all add: cancelReader_def)
next
  case (Some ifm)
  note p = wellFormed_parts[OF wf Some]
  note q = requestsTracked_parts[OF tr Some]
  show ?thesis
  proof (cases "readerState s = RS_READING_FROM_FILE")
    case True
    with p(3) obtain rc where "readRequest ifm = Some rc" by auto
    with True Some show ?thesis by (simp add: cancelReader_def)
  next
    case False
    with q(1) have "readRequest ifm = None" by auto
    with False Some show ?thesis
      by (cases "readerState s") (simp_all add: cancelReader_def)
  qed
qed

lemma cancelWriter_cancels:
  assumes ifm: "inFileMode s = Some ifm"
    and p: "writerState ifm = WS_CREATING_FILE \<or> writerState ifm = WS_MOVING
            \<longrightarrow> writerRequest ifm \<noteq> None"
    and q: "writerRequest ifm \<noteq> None
            \<longrightarrow> writerState ifm = WS_CREATING_FILE \<or> writerState ifm = WS_MOVING"
  shows "\<exists>s2. cancelWriter s = Some s2
     \<and> canceledContexts s2 = canceledContexts s
         @ (case writerRequest ifm of None \<Rightarrow> [] | Some ctx \<Rightarrow> [WriterRequest ctx])
     \<and> chan s2 = chan s"
  using assms by (cases "writerState ifm") (auto simp: cancelWriter_def)

lemma deinitialize_cancels:
  assumes wf: "wellFormed s" and tr: "requestsTracked s"
  shows "\<exists>s'. deinitialize ops s = Some s'
     \<and> canceledContexts s' = canceledContexts s @ outstandingRequests s"
proof -
  from cancelReader_cancels[OF wf tr] obtain s1 where
    s1: "cancelReader s = Some s1"
    and c1: "canceledContexts s1 = canceledContexts s
         @ (case inFileMode s of
              None \<Rightarrow> []
            | Some ifm \<Rightarrow> (case readRequest ifm of None \<Rightarrow> [] | Some rc \<Rightarrow> [ReadRequest rc]))"
    and f1: "inFileMode s1 = map_option (\<lambda>ifm. ifm\<lparr>readRequest := None\<rparr>) (inFileMode s)"
    and m1: "mode s1 = mode s"
    by blast
  show ?thesis
  proof (cases "inFileMode s")
    case None
    with wf have "mode s \<noteq> IN_FILE_MODE"
      by (auto simp: wellFormed_def invK_def modeInvariants_def)
    with s1 c1 m1 None show ?thesis
      by (simp add: deinitialize_def Let_def clearBuffers_def outstandingRequests_def)
  next
    case (Some ifm)
    note p = wellFormed_parts[OF wf Some]
    note q = requestsTracked_parts[OF tr Some]
    from f1 Some have f: "inFileMode s1 = Some (ifm\<lparr>readRequest := None\<rparr>)" by simp
    from cancelWriter_cancels[OF f] p(4) q(2) obtain s2 where
      s2: "cancelWriter s1 = Some s2"
      and c2: "canceledContexts s2 = canceledContexts s1
         @ (case writerRequest ifm of None \<Rightarrow> [] | Some ctx \<Rightarrow> [WriterRequest ctx])"
      by auto
    from s1 s2 c1 c2 m1 p(1) Some show ?thesis
      by (simp add: deinitialize_def Let_def clearBuffers_def outstandingRequests_def)
  qed
qed

lemma deinitialize_fields:
  assumes "deinitialize ops s = Some s'"
  shows "nbuffers s' = 0" "bytesBuffered s' = 0" "firstBuffer s' = []" "moreBuffers s' = []"
    "mode s' = IN_MEMORY_MODE" "readerState s' = RS_INACTIVE" "errcode s' = 0"
    "inFileMode s' = None" "chan s' = ch_deinitialize ops (chan s)"
  using assms
  by (auto simp: deinitialize_def Let_def clearBuffers_def split: option.splits if_splits
      dest!: cancelReader_Some cancelWriter_Some)

subsection \<open>Deinitializing and reinitializing\<close>

text \<open>
  C7 as stated fails for \<^verbatim>\<open>reinitialize()\<close>: after an error with a buffer still queued,
  \<^verbatim>\<open>reinitialize()\<close> returns in mode \<^verbatim>\<open>ERROR_WAITING\<close> with the error code and the queue as
  they were.
\<close>

theorem reinitialize_counterexample:
  "run (Channel_ops False) (sampleConfig 16 True)
     [Feed ''abc'', Feed ''de'', FeedError 5, Reinitialize] (FileBufferedChannel newChannel)
   = Some \<lparr> mode = ERROR_WAITING, readerState = RS_TERMINATED, nbuffers = 1, errcode = 5,
       bytesBuffered = 2, firstBuffer = ''de'', moreBuffers = [], inFileMode = None,
       chan = \<lparr> state = IDLE, generation = 1, received = [Data ''abc''],
         buffersFlushedCalls = 1, dataFlushedCalls = 0 \<rparr>,
         canceledContexts = [] \<rparr>"
  by (simp add: eval_defs)

text \<open>
  C7, amended. From every state that a sequence of entry points reaches from a new object,
  the error modes included, \<^verbatim>\<open>deinitialize()\<close> returns, and it has cancelled all outstanding
  asynchronous I/O requests: \<^verbatim>\<open>cancel()\<close> has been called on the read request and on the
  writer request that the object held, and on nothing else. It has cleared the queue
  (\<^verbatim>\<open>nbuffers == 0\<close>, \<^verbatim>\<open>bytesBuffered == 0\<close>), reset the mode to \<^verbatim>\<open>IN_MEMORY_MODE\<close> and the
  reader to \<^verbatim>\<open>RS_INACTIVE\<close>, cleared the error code, released the in-file state, so that no
  request is outstanding afterwards, and deinitialized the base class.
  \<^verbatim>\<open>reinitialize()\<close> reinitializes the base class and changes no member of the class
  itself, so it cancels nothing. For the underlying channel of the spec both bump the
  generation.
\<close>

theorem deinitialize_cancels_and_resets:
  assumes "run ops cfg es (FileBufferedChannel w) = Some s"
  shows "(\<exists>s'. deinitialize ops s = Some s'
        \<and> canceledContexts s' = canceledContexts s @ outstandingRequests s
        \<and> outstandingRequests s' = []
        \<and> nbuffers s' = 0 \<and> bytesBuffered s' = 0 \<and> firstBuffer s' = [] \<and> moreBuffers s' = []
        \<and> mode s' = IN_MEMORY_MODE \<and> readerState s' = RS_INACTIVE \<and> errcode s' = 0
        \<and> inFileMode s' = None \<and> chan s' = ch_deinitialize ops (chan s))
   \<and> reinitialize ops s = Some (s\<lparr>chan := ch_reinitialize ops (chan s)\<rparr>)
   \<and> ch_generation (Channel_ops sync) (ch_deinitialize (Channel_ops sync) c)
       = ch_generation (Channel_ops sync) c + 1
   \<and> ch_generation (Channel_ops sync) (ch_reinitialize (Channel_ops sync) c)
       = ch_generation (Channel_ops sync) c + 1"
proof (intro conjI)
  from wellFormed_initial assms have wf: "wellFormed s" by (rule run_wellFormed)
  from wellFormed_initial requestsTracked_initial assms have tr: "requestsTracked s"
    by (rule run_requestsTracked)
  from deinitialize_cancels[OF wf tr] obtain s' where
    d: "deinitialize ops s = Some s'"
    and c: "canceledContexts s' = canceledContexts s @ outstandingRequests s"
    by blast
  note f = deinitialize_fields[OF d]
  from f(8) have "outstandingRequests s' = []" by (simp add: outstandingRequests_def)
  with d c f show "\<exists>s'. deinitialize ops s = Some s'
        \<and> canceledContexts s' = canceledContexts s @ outstandingRequests s
        \<and> outstandingRequests s' = []
        \<and> nbuffers s' = 0 \<and> bytesBuffered s' = 0 \<and> firstBuffer s' = [] \<and> moreBuffers s' = []
        \<and> mode s' = IN_MEMORY_MODE \<and> readerState s' = RS_INACTIVE \<and> errcode s' = 0
        \<and> inFileMode s' = None \<and> chan s' = ch_deinitialize ops (chan s)"
    by blast
qed (simp_all add: reinitialize_def Channel_ops_def)

theorem deinitialize_cancels_and_resets_witness:
  "run (Channel_ops False) (sampleConfig 1 False)
     [Feed ''x'', Feed ''abcd'', BufferFileCreated 3 0, BufferWrittenToFile 1 0,
      BufferWrittenToFile 4 0, Consumed 1 False, Feed ''ef''] (FileBufferedChannel newChannel)
   = Some \<lparr> mode = IN_FILE_MODE, readerState = RS_READING_FROM_FILE, nbuffers = 1,
       errcode = 0, bytesBuffered = 2, firstBuffer = ''ef'', moreBuffers = [],
       inFileMode = Some \<lparr> fd = 3, readRequest = Some \<lparr> rc_size = 4, rc_offset = 1 \<rparr>,
         writerState = WS_MOVING,
         writerRequest = Some (MoveCtx \<lparr> mc_buffer = ''ef'', mc_written = 0,
           mc_reqData = ''ef'', mc_reqOffset = 5 \<rparr>),
         readOffset = 1, written = 4, fileData = ''xabcd'' \<rparr>,
       chan = \<lparr> state = IDLE, generation = 0, received = [Data ''x''],
         buffersFlushedCalls = 1, dataFlushedCalls = 0 \<rparr>,
       canceledContexts = [] \<rparr>
   \<and> (\<exists>s'. deinitialize (Channel_ops False)
       \<lparr> mode = IN_FILE_MODE, readerState = RS_READING_FROM_FILE, nbuffers = 1,
         errcode = 0, bytesBuffered = 2, firstBuffer = ''ef'', moreBuffers = [],
         inFileMode = Some \<lparr> fd = 3, readRequest = Some \<lparr> rc_size = 4, rc_offset = 1 \<rparr>,
           writerState = WS_MOVING,
           writerRequest = Some (MoveCtx \<lparr> mc_buffer = ''ef'', mc_written = 0,
             mc_reqData = ''ef'', mc_reqOffset = 5 \<rparr>),
           readOffset = 1, written = 4, fileData = ''xabcd'' \<rparr>,
         chan = \<lparr> state = IDLE, generation = 0, received = [Data ''x''],
           buffersFlushedCalls = 1, dataFlushedCalls = 0 \<rparr>,
         canceledContexts = [] \<rparr> = Some s'
       \<and> canceledContexts s'
           = [ReadRequest \<lparr> rc_size = 4, rc_offset = 1 \<rparr>,
              WriterRequest (MoveCtx \<lparr> mc_buffer = ''ef'', mc_written = 0,
                mc_reqData = ''ef'', mc_reqOffset = 5 \<rparr>)]
       \<and> outstandingRequests s' = []
       \<and> nbuffers s' = 0 \<and> bytesBuffered s' = 0 \<and> firstBuffer s' = [] \<and> moreBuffers s' = []
       \<and> mode s' = IN_MEMORY_MODE \<and> readerState s' = RS_INACTIVE \<and> errcode s' = 0
       \<and> inFileMode s' = None
       \<and> chan s' = \<lparr> state = IDLE, generation = 1, received = [Data ''x''],
           buffersFlushedCalls = 1, dataFlushedCalls = 0 \<rparr>)"
proof -
  have h1: "run (Channel_ops False) (sampleConfig 1 False)
     [Feed ''x'', Feed ''abcd'', BufferFileCreated 3 0, BufferWrittenToFile 1 0,
      BufferWrittenToFile 4 0, Consumed 1 False, Feed ''ef''] (FileBufferedChannel newChannel)
   = Some \<lparr> mode = IN_FILE_MODE, readerState = RS_READING_FROM_FILE, nbuffers = 1,
       errcode = 0, bytesBuffered = 2, firstBuffer = ''ef'', moreBuffers = [],
       inFileMode = Some \<lparr> fd = 3, readRequest = Some \<lparr> rc_size = 4, rc_offset = 1 \<rparr>,
         writerState = WS_MOVING,
         writerRequest = Some (MoveCtx \<lparr> mc_buffer = ''ef'', mc_written = 0,
           mc_reqData = ''ef'', mc_reqOffset = 5 \<rparr>),
         readOffset = 1, written = 4, fileData = ''xabcd'' \<rparr>,
       chan = \<lparr> state = IDLE, generation = 0, received = [Data ''x''],
         buffersFlushedCalls = 1, dataFlushedCalls = 0 \<rparr>,
       canceledContexts = [] \<rparr>"
    by (simp add: eval_defs)
  have h2: "\<exists>s'. deinitialize (Channel_ops False)
       \<lparr> mode = IN_FILE_MODE, readerState = RS_READING_FROM_FILE, nbuffers = 1,
         errcode = 0, bytesBuffered = 2, firstBuffer = ''ef'', moreBuffers = [],
         inFileMode = Some \<lparr> fd = 3, readRequest = Some \<lparr> rc_size = 4, rc_offset = 1 \<rparr>,
           writerState = WS_MOVING,
           writerRequest = Some (MoveCtx \<lparr> mc_buffer = ''ef'', mc_written = 0,
             mc_reqData = ''ef'', mc_reqOffset = 5 \<rparr>),
           readOffset = 1, written = 4, fileData = ''xabcd'' \<rparr>,
         chan = \<lparr> state = IDLE, generation = 0, received = [Data ''x''],
           buffersFlushedCalls = 1, dataFlushedCalls = 0 \<rparr>,
         canceledContexts = [] \<rparr> = Some s'
       \<and> canceledContexts s'
           = [ReadRequest \<lparr> rc_size = 4, rc_offset = 1 \<rparr>,
              WriterRequest (MoveCtx \<lparr> mc_buffer = ''ef'', mc_written = 0,
                mc_reqData = ''ef'', mc_reqOffset = 5 \<rparr>)]
       \<and> outstandingRequests s' = []
       \<and> nbuffers s' = 0 \<and> bytesBuffered s' = 0 \<and> firstBuffer s' = [] \<and> moreBuffers s' = []
       \<and> mode s' = IN_MEMORY_MODE \<and> readerState s' = RS_INACTIVE \<and> errcode s' = 0
       \<and> inFileMode s' = None
       \<and> chan s' = \<lparr> state = IDLE, generation = 1, received = [Data ''x''],
           buffersFlushedCalls = 1, dataFlushedCalls = 0 \<rparr>"
    using deinitialize_cancels_and_resets [OF h1, THEN conjunct1]
    by (simp add: outstandingRequests_def Channel_ops_def)
  from h1 h2 show ?thesis by (intro conjI)
qed

subsection \<open>Leaving the in-file mode\<close>









subsection \<open>The lead of the reader is a prefix of the queue\<close>

lemma queueCounted_length:
  "queueCounted s \<Longrightarrow> unat (nbuffers s) = length (bufferQueue s)"
  by (simp add: queueCounted_def bufferQueue_def split: if_splits)

lemma bufferQueue_pushBuffer:
  assumes c: "queueCounted s" and l: "Suc (length (bufferQueue s)) < 2 ^ 27"
  shows "bufferQueue (pushBuffer b s) = bufferQueue s @ [b]"
    and "queueCounted (pushBuffer b s)"
    and "nbuffers (pushBuffer b s) \<noteq> 0"
    and "nbuffers s \<noteq> 0 \<Longrightarrow> firstBuffer (pushBuffer b s) = firstBuffer s"
proof -
  from c have u: "unat (nbuffers s) = length (bufferQueue s)" by (rule queueCounted_length)
  have "unat (nbuffers s) + unat (1 :: 27 word) < 2 ^ LENGTH(27)"
    using l u by simp
  then have "unat (nbuffers s + 1) = unat (nbuffers s) + unat (1 :: 27 word)"
    by (simp only: unat_add_lem)
  then have u1: "unat (nbuffers s + 1) = Suc (unat (nbuffers s))" by simp
  then have nz: "nbuffers s + 1 \<noteq> 0" by (auto simp flip: unat_eq_0)
  show "nbuffers (pushBuffer b s) \<noteq> 0" using nz by (simp add: pushBuffer_def Let_def)
  show "bufferQueue (pushBuffer b s) = bufferQueue s @ [b]"
    using c nz by (simp add: pushBuffer_def Let_def bufferQueue_def queueCounted_def)
  show "queueCounted (pushBuffer b s)"
    using c nz u1 by (simp add: pushBuffer_def Let_def queueCounted_def)
  show "nbuffers s \<noteq> 0 \<Longrightarrow> firstBuffer (pushBuffer b s) = firstBuffer s"
    by (simp add: pushBuffer_def Let_def)
qed

lemma bufferQueue_popBuffer:
  assumes c: "queueCounted s" and nz: "nbuffers s \<noteq> 0"
  shows "bufferQueue (popBuffer ops s) = tl (bufferQueue s)"
    and "queueCounted (popBuffer ops s)"
proof -
  from c nz have u: "unat (nbuffers s) = Suc (length (moreBuffers s))"
    by (simp add: queueCounted_def)
  from nz have u1: "unat (nbuffers s - 1) = length (moreBuffers s)"
    using u by (simp add: unat_minus_one)
  then have z: "(nbuffers s - 1 = 0) = (moreBuffers s = [])"
    by (simp flip: unat_eq_0)
  show "bufferQueue (popBuffer ops s) = tl (bufferQueue s)"
    using nz z
    by (cases "moreBuffers s")
       (simp_all add: popBuffer_def Let_def bufferQueue_def callBuffersFlushedCallback_def)
  show "queueCounted (popBuffer ops s)"
    using nz z u1
    by (cases "moreBuffers s")
       (simp_all add: popBuffer_def Let_def queueCounted_def callBuffersFlushedCallback_def)
qed

lemma sum_list_take_le:
  "sum_list (map length (take k xs)) \<le> sum_list (map length (xs :: 'a list list))"
proof -
  have "sum_list (map length xs)
      = sum_list (map length (take k xs)) + sum_list (map length (drop k xs))"
    by (simp flip: sum_list_append map_append)
  then show ?thesis by simp
qed

lemma walkMoreBuffers_exact:
  assumes "off + sum_list (map length bs) < 2 ^ 32"
    and "t = off + sum_list (map length (take j bs))" and "j \<le> length bs"
    and "[] \<notin> set (take j bs)"
  shows "walkMoreBuffers (of_nat t) (of_nat off) bs
         = (if j < length bs then (bs ! j, True) else ([], False))"
  using assms
proof (induction bs arbitrary: off j)
  case Nil
  then show ?case by simp
next
  case (Cons b bs)
  show ?case
  proof (cases j)
    case 0
    with Cons.prems show ?thesis by simp
  next
    case (Suc j')
    with Cons.prems have b: "b \<noteq> []" by auto
    from Cons.prems Suc have t: "t = (off + length b) + sum_list (map length (take j' bs))"
      by simp
    have lt: "off < 2 ^ 32" "t < 2 ^ 32"
      using Cons.prems(1) t sum_list_take_le[of j' bs] by simp_all
    have "off \<noteq> t" using t b by simp
    then have ne: "(of_nat off :: 32 word) \<noteq> of_nat t"
      using lt by (simp add: word_of_nat_eq_iff take_bit_nat_eq_self)
    have ih: "walkMoreBuffers (of_nat t) (of_nat (off + length b)) bs
         = (if j' < length bs then (bs ! j', True) else ([], False))"
      using Cons.prems Suc t by (intro Cons.IH) auto
    show ?thesis using ne b ih Suc by simp
  qed
qed

lemma findBufferForReadProcessing_servedPrefix:
  assumes p: "servedPrefix s ifm k"
    and m: "sum_list (map length (bufferQueue s)) < 2 ^ 32"
  shows "findBufferForReadProcessing s ifm
         = (if k < length (bufferQueue s) then (bufferQueue s ! k, True) else ([], False))"
proof (cases "nbuffers s = 0")
  case True
  with p show ?thesis
    by (simp add: findBufferForReadProcessing_def servedPrefix_def bufferQueue_def)
next
  case False
  then have q: "bufferQueue s = firstBuffer s # moreBuffers s" by (simp add: bufferQueue_def)
  let ?t = "sum_list (map length (take k (bufferQueue s)))"
  from p have w: "- written ifm = int ?t" and kl: "k \<le> length (bufferQueue s)"
    and ne: "[] \<notin> set (take k (bufferQueue s))"
    by (simp_all add: servedPrefix_def)
  have tgt: "(word_of_int (- written ifm) :: 32 word) = of_nat ?t"
    by (simp only: w of_int_of_nat_eq)
  show ?thesis
  proof (cases k)
    case 0
    with False tgt q show ?thesis by (simp add: findBufferForReadProcessing_def)
  next
    case (Suc j)
    with ne q have f: "firstBuffer s \<noteq> []" by auto
    from Suc q have t: "?t = length (firstBuffer s) + sum_list (map length (take j (moreBuffers s)))"
      by simp
    have "?t \<le> sum_list (map length (bufferQueue s))"
      by (rule sum_list_take_le)
    with m have tl: "?t < 2 ^ 32" by simp
    from t f have "0 < ?t" by simp
    with tl have nz: "(of_nat ?t :: 32 word) \<noteq> 0" by (intro of_nat_neq_0) simp_all
    have "walkMoreBuffers (of_nat ?t) (of_nat (length (firstBuffer s))) (moreBuffers s)
         = (if j < length (moreBuffers s) then (moreBuffers s ! j, True) else ([], False))"
      using m q t kl ne Suc by (intro walkMoreBuffers_exact) auto
    with False tgt nz q Suc show ?thesis
      by (simp add: findBufferForReadProcessing_def Let_def)
  qed
qed

end
